theory Spec2Isabelle
  imports Main "HOL-Library.Word" "HOL-Library.Sublist"
begin

section \<open>JavaScript strings and the regular-expression primitives\<close>

text \<open>
  A JavaScript string is modelled as a \<open>string\<close>: the list of its code units, each a
  \<open>char\<close>.  The character classes below are the ones the two regular expressions of
  \<^verbatim>\<open>xml-utils.ts\<close> and the marker-line expression of \<^verbatim>\<open>inject.ts\<close> use.
\<close>

definition is_word_char :: "char \<Rightarrow> bool" where
  \<comment> \<open>\<^verbatim>\<open>\w\<close>, the class behind \<^verbatim>\<open>\b\<close>\<close>
  "is_word_char c =
     (c \<in> set ''abcdefghijklmnopqrstuvwxyzABCDEFGHIJKLMNOPQRSTUVWXYZ0123456789_'')"

definition is_space_char :: "char \<Rightarrow> bool" where
  \<comment> \<open>\<^verbatim>\<open>\s\<close> and the characters \<^verbatim>\<open>trim()\<close> removes: TAB, LF, VT, FF, CR, SP, NBSP\<close>
  "is_space_char c =
     (c \<in> set [CHR 0x09, CHR 0x0A, CHR 0x0B, CHR 0x0C, CHR 0x0D, CHR 0x20, CHR 0xA0])"

definition is_digit_char :: "char \<Rightarrow> bool" where
  \<comment> \<open>\<^verbatim>\<open>\d\<close>\<close>
  "is_digit_char c = (c \<in> set ''0123456789'')"

definition not_gt :: "char \<Rightarrow> bool" where
  \<comment> \<open>\<^verbatim>\<open>[^>]\<close>\<close>
  "not_gt c = (c \<noteq> CHR ''>'')"

definition not_lt :: "char \<Rightarrow> bool" where
  \<comment> \<open>\<^verbatim>\<open>[^<]\<close>\<close>
  "not_lt c = (c \<noteq> CHR ''<'')"

fun strip_prefix :: "string \<Rightarrow> string \<Rightarrow> string option" where
  \<comment> \<open>a literal at the current position: the input behind it, or no match\<close>
  "strip_prefix [] s = Some s"
| "strip_prefix (p # ps) [] = None"
| "strip_prefix (p # ps) (c # cs) = (if p = c then strip_prefix ps cs else None)"

definition trim :: "string \<Rightarrow> string" where
  \<comment> \<open>\<^verbatim>\<open>String.prototype.trim\<close>\<close>
  "trim s = rev (dropWhile is_space_char (rev (dropWhile is_space_char s)))"

fun join :: "string \<Rightarrow> string list \<Rightarrow> string" where
  \<comment> \<open>\<^verbatim>\<open>Array.prototype.join\<close>\<close>
  "join sep [] = []"
| "join sep [x] = x"
| "join sep (x # y # ys) = x @ sep @ join sep (y # ys)"

fun split :: "char \<Rightarrow> string \<Rightarrow> string list" where
  \<comment> \<open>\<^verbatim>\<open>String.prototype.split\<close> at a one-character separator\<close>
  "split sep [] = [[]]"
| "split sep (c # cs) =
     (if c = sep then [] # split sep cs
      else (case split sep cs of
              [] \<Rightarrow> [[c]]
            | l # ls \<Rightarrow> (c # l) # ls))"

definition digit_char :: "nat \<Rightarrow> char" where
  "digit_char d = ''0123456789'' ! d"

fun decimal :: "nat \<Rightarrow> string" where
  \<comment> \<open>the decimal numeral of a natural number\<close>
  "decimal n = (if n < 10 then [digit_char n] else decimal (n div 10) @ [digit_char (n mod 10)])"

definition decimal_int :: "int \<Rightarrow> string" where
  \<comment> \<open>the decimal numeral of an integer, with a minus sign below zero\<close>
  "decimal_int n = (if n < 0 then CHR ''-'' # decimal (nat (- n)) else decimal (nat n))"

section \<open>JavaScript numbers: the identifier counter\<close>

text \<open>
  The counter \<^verbatim>\<open>id\<close> of the extractor is a JavaScript number, a double.  The type \<open>number\<close>
  has the integers from \<open>- 2 ^ 53\<close> to \<open>2 ^ 53\<close>, which are doubles all of them, and
  nothing else: the callers start the counter at 0 and the code only increments it, so
  these are the values it takes in the program.  A fraction, an integer beyond
  \<open>2 ^ 53\<close>, an infinity and NaN are not values of the type, and \<^verbatim>\<open>-0\<close> is \<^verbatim>\<open>0\<close>.

  \<^item> \<^verbatim>\<open>id++\<close> stores the sum of \<^verbatim>\<open>id\<close> and 1, rounded to the nearest double, to the
    even one of two that are equally near.  Below \<open>2 ^ 53\<close> the sum is a double.
    \<open>2 ^ 53 + 1\<close> is none: its neighbours are \<open>2 ^ 53\<close> and \<open>2 ^ 53 + 2\<close>, and the even
    one is \<open>2 ^ 53\<close>, so there the counter stays where it is.
  \<^item> A template literal prints an integer of this range as its decimal numeral, with a
    minus sign below zero.
\<close>

typedef number = "{n :: int. - (2 ^ 53) \<le> n \<and> n \<le> 2 ^ 53}"
  morphisms number_value Number
  by (rule exI [of _ 0]) simp

setup_lifting type_definition_number

lift_definition number_increment :: "number \<Rightarrow> number" is
  "\<lambda>n. if n < 2 ^ 53 then n + 1 else n"
  by auto

lift_definition number_toString :: "number \<Rightarrow> string" is decimal_int .

section \<open>The regular expressions of the source and their backtracking semantics\<close>

text \<open>
  The code works with four regular expressions.  They are written down here as they
  stand in the source, with the backtracking semantics of ECMAScript: the matches of an
  expression from a position are listed in the order in which the matcher tries them, and
  the match \<^verbatim>\<open>exec\<close> reports at that position is the first of the list.  A state is
  the character before the position, the input from the position on and the captures made
  so far.  An iteration of \<^verbatim>\<open>*\<close>, \<^verbatim>\<open>*?\<close> or \<^verbatim>\<open>?\<close> that consumes nothing is
  rejected, as the matcher does.  No group of the four expressions stands inside a
  repetition that can run twice, so captures are never reset.
\<close>

datatype regex =
    Eps
  | Chr char
  | Cls "char \<Rightarrow> bool"
  | Seq regex regex
  | Opt regex
  | Star regex
  | Lazy regex
  | Grp nat regex
  | WordB
  | Bol
  | Eol

type_synonym rstate = "char option \<times> string \<times> (nat \<times> string) list"

definition progress :: "rstate \<Rightarrow> rstate \<Rightarrow> bool" where
  "progress st st' = (length (fst (snd st')) < length (fst (snd st)))"

definition is_word_opt :: "char option \<Rightarrow> bool" where
  "is_word_opt p = (case p of None \<Rightarrow> False | Some c \<Rightarrow> is_word_char c)"

function backtrack :: "regex \<Rightarrow> rstate \<Rightarrow> rstate list" where
  "backtrack Eps st = [st]"
| "backtrack (Chr c) st =
     (case st of (p, s, caps) \<Rightarrow>
        (case s of [] \<Rightarrow> [] | x # xs \<Rightarrow> if x = c then [(Some x, xs, caps)] else []))"
| "backtrack (Cls P) st =
     (case st of (p, s, caps) \<Rightarrow>
        (case s of [] \<Rightarrow> [] | x # xs \<Rightarrow> if P x then [(Some x, xs, caps)] else []))"
| "backtrack (Seq a b) st = concat (map (backtrack b) (backtrack a st))"
| "backtrack (Opt a) st = filter (progress st) (backtrack a st) @ [st]"
| "backtrack (Star a) st =
     concat (map (backtrack (Star a)) (filter (progress st) (backtrack a st))) @ [st]"
| "backtrack (Lazy a) st =
     st # concat (map (backtrack (Lazy a)) (filter (progress st) (backtrack a st)))"
| "backtrack (Grp n a) st =
     (case st of (p, s, caps) \<Rightarrow>
        map (\<lambda>st'. case st' of (p', s', caps') \<Rightarrow> (p', s', (n, take (length s - length s') s) # caps'))
          (backtrack a st))"
| "backtrack WordB st =
     (case st of (p, s, caps) \<Rightarrow>
        if is_word_opt p \<noteq> is_word_opt (case s of [] \<Rightarrow> None | x # xs \<Rightarrow> Some x) then [st] else [])"
| "backtrack Bol st = (case st of (p, s, caps) \<Rightarrow> if p = None then [st] else [])"
| "backtrack Eol st = (case st of (p, s, caps) \<Rightarrow> if s = [] then [st] else [])"
  by pat_completeness auto
termination
  by (relation "inv_image (less_than <*lex*> less_than) (\<lambda>(r, st). (size r, length (fst (snd st))))")
     (auto simp: progress_def)


primrec Str :: "string \<Rightarrow> regex" where
  "Str [] = Eps"
| "Str (c # cs) = Seq (Chr c) (Str cs)"

definition PARAGRAPH_REGEX :: regex where
  \<comment> \<open>\<^verbatim>\<open>/<w:p\b[^>]*>(.*?)<\/w:p>/gs\<close>\<close>
  "PARAGRAPH_REGEX =
     Seq (Str ''<w:p'') (Seq WordB (Seq (Star (Cls not_gt)) (Seq (Chr (CHR ''>''))
       (Seq (Grp 1 (Lazy (Cls (\<lambda>c. True)))) (Str ''</w:p>'')))))"

definition TEXT_ELEMENT_REGEX :: regex where
  \<comment> \<open>\<^verbatim>\<open>/<w:t(\s[^>]*)?>([^<]*)<\/w:t>/g\<close>\<close>
  "TEXT_ELEMENT_REGEX =
     Seq (Str ''<w:t'') (Seq (Opt (Grp 1 (Seq (Cls is_space_char) (Star (Cls not_gt)))))
       (Seq (Chr (CHR ''>'')) (Seq (Grp 2 (Star (Cls not_lt))) (Str ''</w:t>''))))"

definition OPEN_TAG_REGEX :: regex where
  \<comment> \<open>\<^verbatim>\<open>/<w:p(\s[^>]*)?>/\<close>, the expression in the last line of the callback\<close>
  "OPEN_TAG_REGEX =
     Seq (Str ''<w:p'') (Seq (Opt (Grp 1 (Seq (Cls is_space_char) (Star (Cls not_gt)))))
       (Chr (CHR ''>'')))"

definition ID_LINE_REGEX :: regex where
  \<comment> \<open>\<^verbatim>\<open>/^\[(p\d+)\]$/\<close>, the marker line of the plain-text form\<close>
  "ID_LINE_REGEX =
     Seq Bol (Seq (Chr (CHR ''['')) (Seq (Grp 1 (Seq (Chr (CHR ''p''))
       (Seq (Cls is_digit_char) (Star (Cls is_digit_char))))) (Seq (Chr (CHR '']'')) Eol)))"

definition regexp_match_at :: "regex \<Rightarrow> char option \<Rightarrow> string \<Rightarrow> ((string \<times> (nat \<times> string) list) \<times> string) option" where
  "regexp_match_at r p s =
     (case backtrack r (p, s, []) of
        [] \<Rightarrow> None
      | (p', rest, caps) # others \<Rightarrow> Some ((take (length s - length rest) s, caps), rest))"

section \<open>The expressions in deterministic form\<close>

text \<open>
  None of the four expressions can match in two ways from one position, apart from the
  lazy capture of the paragraph rule, of which the first match counts.  The functions of
  this section compute, without backtracking, the first match of each expression at a
  position; that they agree with the backtracking semantics is proved below
  (\<open>PARAGRAPH_REGEX_match\<close>, \<open>TEXT_ELEMENT_REGEX_match\<close>, \<open>OPEN_TAG_REGEX_match\<close>,
  \<open>ID_LINE_REGEX_match\<close>).  The loops of the code are modelled on these functions.
\<close>

fun regexp_exec :: "(string \<Rightarrow> ('m \<times> string) option) \<Rightarrow> string \<Rightarrow> (string \<times> 'm \<times> string) option" where
  \<comment> \<open>the leftmost match at or behind the current position: the text skipped before it,
      the match, and the input behind the match (where \<^verbatim>\<open>lastIndex\<close> then points)\<close>
  "regexp_exec at [] =
     (case at [] of
        None \<Rightarrow> None
      | Some (m, rest) \<Rightarrow> Some ([], m, rest))"
| "regexp_exec at (c # cs) =
     (case at (c # cs) of
        Some (m, rest) \<Rightarrow> Some ([], m, rest)
      | None \<Rightarrow>
          (case regexp_exec at cs of
             None \<Rightarrow> None
           | Some (pre, m, rest) \<Rightarrow> Some (c # pre, m, rest)))"

fun lazy_until :: "string \<Rightarrow> string \<Rightarrow> (string \<times> string) option" where
  \<comment> \<open>\<^verbatim>\<open>(.*?)\<close> with the \<^verbatim>\<open>s\<close> flag in front of a literal: the shortest capture behind
      which the literal stands, and the input behind the literal\<close>
  "lazy_until lit [] = (case strip_prefix lit [] of None \<Rightarrow> None | Some rest \<Rightarrow> Some ([], rest))"
| "lazy_until lit (c # cs) =
     (case strip_prefix lit (c # cs) of
        Some rest \<Rightarrow> Some ([], rest)
      | None \<Rightarrow>
          (case lazy_until lit cs of
             None \<Rightarrow> None
           | Some (cap, rest) \<Rightarrow> Some (c # cap, rest)))"

definition optional_attrs :: "string \<Rightarrow> string option \<times> string" where
  \<comment> \<open>the greedy optional group \<^verbatim>\<open>(\s[^>]*)?\<close>: its capture (undefined when it does not
      take part) and the input behind it.  Whatever the group gives back by backtracking
      is a character other than \<^verbatim>\<open>>\<close>, which is what has to follow, so the greedy choice is
      the only one that can lead to a match.\<close>
  "optional_attrs r =
     (case r of
        [] \<Rightarrow> (None, r)
      | c # cs \<Rightarrow>
          if is_space_char c then (Some (takeWhile not_gt r), dropWhile not_gt r)
          else (None, r))"

definition or_empty :: "string option \<Rightarrow> string" where
  \<comment> \<open>\<^verbatim>\<open>group || ''\<close>\<close>
  "or_empty g = (case g of None \<Rightarrow> [] | Some a \<Rightarrow> (if a = [] then [] else a))"


definition match_paragraph_at :: "string \<Rightarrow> ((string \<times> string) \<times> string) option" where
  \<comment> \<open>\<^verbatim>\<open>PARAGRAPH_REGEX = /<w:p\b[^>]*>(.*?)<\/w:p>/gs\<close> at one start position: the whole
      match and group 1, and the input behind the match\<close>
  "match_paragraph_at s =
     (case strip_prefix ''<w:p'' s of
        None \<Rightarrow> None
      | Some r \<Rightarrow>
          if (case r of [] \<Rightarrow> False | c # cs \<Rightarrow> is_word_char c) then None
          else
            (case dropWhile not_gt r of
               [] \<Rightarrow> None
             | g # body \<Rightarrow>
                 (case lazy_until ''</w:p>'' body of
                    None \<Rightarrow> None
                  | Some (content, rest) \<Rightarrow>
                      Some ((''<w:p'' @ takeWhile not_gt r @ ''>'' @ content @ ''</w:p>'', content),
                            rest))))"

definition match_text_at :: "string \<Rightarrow> ((string \<times> string option \<times> string) \<times> string) option" where
  \<comment> \<open>\<^verbatim>\<open>TEXT_ELEMENT_REGEX = /<w:t(\s[^>]*)?>([^<]*)<\/w:t>/g\<close> at one start position: the
      whole match, group 1 and group 2, and the input behind the match\<close>
  "match_text_at s =
     (case strip_prefix ''<w:t'' s of
        None \<Rightarrow> None
      | Some r \<Rightarrow>
          (case optional_attrs r of
             (attrs, r') \<Rightarrow>
               (case strip_prefix ''>'' r' of
                  None \<Rightarrow> None
                | Some body \<Rightarrow>
                    (case strip_prefix ''</w:t>'' (dropWhile not_lt body) of
                       None \<Rightarrow> None
                     | Some rest \<Rightarrow>
                         Some ((''<w:t'' @ or_empty attrs @ ''>'' @ takeWhile not_lt body @ ''</w:t>'',
                                attrs, takeWhile not_lt body),
                               rest)))))"

definition match_open_tag_at :: "string \<Rightarrow> (string option \<times> string) option" where
  \<comment> \<open>\<^verbatim>\<open>/<w:p(\s[^>]*)?>/\<close> at one start position: group 1, and the input behind the match\<close>
  "match_open_tag_at s =
     (case strip_prefix ''<w:p'' s of
        None \<Rightarrow> None
      | Some r \<Rightarrow>
          (case optional_attrs r of
             (attrs, r') \<Rightarrow>
               (case strip_prefix ''>'' r' of
                  None \<Rightarrow> None
                | Some rest \<Rightarrow> Some (attrs, rest))))"

section \<open>escapeXml and unescapeXml\<close>

definition replace_char :: "char \<Rightarrow> string \<Rightarrow> string \<Rightarrow> string" where
  \<comment> \<open>\<^verbatim>\<open>text.replace(/c/g, rep)\<close> for a one-character pattern\<close>
  "replace_char c rep s = concat (map (\<lambda>x. if x = c then rep else [x]) s)"

fun replace_literal :: "string \<Rightarrow> string \<Rightarrow> string \<Rightarrow> string" where
  \<comment> \<open>\<^verbatim>\<open>text.replace(/lit/g, rep)\<close> for a literal pattern: the matches are found from left
      to right and the search goes on behind each match\<close>
  "replace_literal lit rep [] = []"
| "replace_literal lit rep (c # cs) =
     (if take (length lit) (c # cs) = lit
      then rep @ replace_literal lit rep (drop (length lit - 1) cs)
      else c # replace_literal lit rep cs)"

definition escapeXml :: "string \<Rightarrow> string" where
  "escapeXml t =
     replace_char (CHR 0x27) ''&apos;''
       (replace_char (CHR 0x22) ''&quot;''
          (replace_char (CHR ''>'') ''&gt;''
             (replace_char (CHR ''<'') ''&lt;''
                (replace_char (CHR ''&'') ''&amp;'' t))))"

definition unescapeXml :: "string \<Rightarrow> string" where
  "unescapeXml t =
     replace_literal ''&apos;'' [CHR 0x27]
       (replace_literal ''&quot;'' [CHR 0x22]
          (replace_literal ''&gt;'' ''>''
             (replace_literal ''&lt;'' ''<''
                (replace_literal ''&amp;'' ''&'' t))))"

section \<open>The two ways the code runs a global regular expression over a string\<close>

text \<open>
  Neither expression has an anchor or looks behind the position where it starts, so a
  search that starts at \<^verbatim>\<open>lastIndex\<close> in a string is a search in the rest of the string
  from there: the loops below go on in the input behind the last match.

  \<^item> \<^verbatim>\<open>re.lastIndex = 0; while ((m = re.exec(s)) !== null) { body }\<close> is an
    \<open>exec_loop\<close>: the body takes the state of the loop to its next state;
  \<^item> \<^verbatim>\<open>s.replace(re, callback)\<close> is a \<open>replace\<close>: the text between the matches is
    kept and every match gives way to what the callback returns for it.
\<close>

type_synonym text_match = "string \<times> string option \<times> string"

type_synonym paragraph_match = "string \<times> string"

function text_exec_loop :: "('st \<Rightarrow> text_match \<Rightarrow> 'st) \<Rightarrow> string \<Rightarrow> 'st \<Rightarrow> 'st" where
  "text_exec_loop body s st =
     (case regexp_exec match_text_at s of
        None \<Rightarrow> st
      | Some (skipped, m, rest) \<Rightarrow> text_exec_loop body rest (body st m))"
  by pat_completeness auto
termination
proof (relation "measure (\<lambda>(f, s, st). length s)")
  fix f :: "'st \<Rightarrow> text_match \<Rightarrow> 'st" and s :: string and st :: 'st and x2 skipped y m rest
  assume ex: "regexp_exec match_text_at s = Some x2" "(skipped, y) = x2" "(m, rest) = y"
  have sp: "length r + length p = length u" if "strip_prefix p u = Some r" for p u r
    using that by (induction p u rule: strip_prefix.induct) (auto split: if_splits)
  have oa: "length (snd (optional_attrs r)) \<le> length r" for r
    using length_dropWhile_le [of not_gt r] by (auto simp: optional_attrs_def split: list.splits)
  have at: "length r < length u" if "match_text_at u = Some (m', r)" for u m' r
  proof -
    from that obtain r1 a r2 b where
      1: "strip_prefix ''<w:t'' u = Some r1" and 2: "optional_attrs r1 = (a, r2)"
      and 3: "strip_prefix ''>'' r2 = Some b"
      and 4: "strip_prefix ''</w:t>'' (dropWhile not_lt b) = Some r"
      by (auto simp: match_text_at_def split: option.splits prod.splits)
    from sp [OF 1] sp [OF 3] sp [OF 4] oa [of r1] 2 length_dropWhile_le [of not_lt b]
    show ?thesis by simp
  qed
  have shorter: "length r < length u" if "regexp_exec match_text_at u = Some (p, m', r)" for u p m' r
    using that
  proof (induction u arbitrary: p)
    case Nil
    then show ?case by (auto split: option.splits dest: at)
  next
    case (Cons c cs)
    show ?case
    proof (cases "match_text_at (c # cs)")
      case None
      with Cons.prems obtain p' where "regexp_exec match_text_at cs = Some (p', m', r)"
        by (auto split: option.splits)
      from Cons.IH [OF this] show ?thesis by simp
    next
      case (Some a)
      with Cons.prems have "match_text_at (c # cs) = Some (m', r)" by (auto split: prod.splits)
      then show ?thesis by (rule at)
    qed
  qed
  from ex shorter [of s skipped m rest]
  show "((f, rest, f st m), f, s, st) \<in> measure (\<lambda>(f, s, st). length s)"
    by simp
qed simp

function text_replace :: "('st \<Rightarrow> text_match \<Rightarrow> string \<times> 'st) \<Rightarrow> string \<Rightarrow> 'st \<Rightarrow> string" where
  \<comment> \<open>the callback reads and writes a variable of the enclosing function: the state\<close>
  "text_replace callback s st =
     (case regexp_exec match_text_at s of
        None \<Rightarrow> s
      | Some (skipped, m, rest) \<Rightarrow>
          (case callback st m of
             (replacement, st') \<Rightarrow> skipped @ replacement @ text_replace callback rest st'))"
  by pat_completeness auto
termination
proof (relation "measure (\<lambda>(f, s, st). length s)")
  fix f :: "'st \<Rightarrow> text_match \<Rightarrow> string \<times> 'st" and s :: string and st :: 'st and x2 skipped y m rest x2a replacement st'
  assume ex: "regexp_exec match_text_at s = Some x2" "(skipped, y) = x2" "(m, rest) = y"
  have sp: "length r + length p = length u" if "strip_prefix p u = Some r" for p u r
    using that by (induction p u rule: strip_prefix.induct) (auto split: if_splits)
  have oa: "length (snd (optional_attrs r)) \<le> length r" for r
    using length_dropWhile_le [of not_gt r] by (auto simp: optional_attrs_def split: list.splits)
  have at: "length r < length u" if "match_text_at u = Some (m', r)" for u m' r
  proof -
    from that obtain r1 a r2 b where
      1: "strip_prefix ''<w:t'' u = Some r1" and 2: "optional_attrs r1 = (a, r2)"
      and 3: "strip_prefix ''>'' r2 = Some b"
      and 4: "strip_prefix ''</w:t>'' (dropWhile not_lt b) = Some r"
      by (auto simp: match_text_at_def split: option.splits prod.splits)
    from sp [OF 1] sp [OF 3] sp [OF 4] oa [of r1] 2 length_dropWhile_le [of not_lt b]
    show ?thesis by simp
  qed
  have shorter: "length r < length u" if "regexp_exec match_text_at u = Some (p, m', r)" for u p m' r
    using that
  proof (induction u arbitrary: p)
    case Nil
    then show ?case by (auto split: option.splits dest: at)
  next
    case (Cons c cs)
    show ?case
    proof (cases "match_text_at (c # cs)")
      case None
      with Cons.prems obtain p' where "regexp_exec match_text_at cs = Some (p', m', r)"
        by (auto split: option.splits)
      from Cons.IH [OF this] show ?thesis by simp
    next
      case (Some a)
      with Cons.prems have "match_text_at (c # cs) = Some (m', r)" by (auto split: prod.splits)
      then show ?thesis by (rule at)
    qed
  qed
  from ex shorter [of s skipped m rest]
  show "((f, rest, st'), f, s, st) \<in> measure (\<lambda>(f, s, st). length s)"
    by simp
qed simp

function paragraph_exec_loop :: "('st \<Rightarrow> paragraph_match \<Rightarrow> 'st) \<Rightarrow> string \<Rightarrow> 'st \<Rightarrow> 'st" where
  "paragraph_exec_loop body s st =
     (case regexp_exec match_paragraph_at s of
        None \<Rightarrow> st
      | Some (skipped, m, rest) \<Rightarrow> paragraph_exec_loop body rest (body st m))"
  by pat_completeness auto
termination
proof (relation "measure (\<lambda>(f, s, st). length s)")
  fix f :: "'st \<Rightarrow> paragraph_match \<Rightarrow> 'st" and s :: string and st :: 'st and x2 skipped y m rest
  assume ex: "regexp_exec match_paragraph_at s = Some x2" "(skipped, y) = x2" "(m, rest) = y"
  have sp: "length r + length p = length u" if "strip_prefix p u = Some r" for p u r
    using that by (induction p u rule: strip_prefix.induct) (auto split: if_splits)
  have lu: "length r \<le> length u" if "lazy_until lit u = Some (c, r)" for lit u c r
    using that by (induction u arbitrary: c) (auto split: option.splits dest: sp)
  have at: "length r < length u" if "match_paragraph_at u = Some (m', r)" for u m' r
  proof -
    from that obtain r1 g b content where
      1: "strip_prefix ''<w:p'' u = Some r1" and 2: "dropWhile not_gt r1 = g # b"
      and 3: "lazy_until ''</w:p>'' b = Some (content, r)"
      by (auto simp: match_paragraph_at_def split: option.splits prod.splits list.splits if_splits)
    from sp [OF 1] lu [OF 3] 2 length_dropWhile_le [of not_gt r1]
    show ?thesis by simp
  qed
  have shorter: "length r < length u" if "regexp_exec match_paragraph_at u = Some (p, m', r)" for u p m' r
    using that
  proof (induction u arbitrary: p)
    case Nil
    then show ?case by (auto split: option.splits dest: at)
  next
    case (Cons c cs)
    show ?case
    proof (cases "match_paragraph_at (c # cs)")
      case None
      with Cons.prems obtain p' where "regexp_exec match_paragraph_at cs = Some (p', m', r)"
        by (auto split: option.splits)
      from Cons.IH [OF this] show ?thesis by simp
    next
      case (Some a)
      with Cons.prems have "match_paragraph_at (c # cs) = Some (m', r)" by (auto split: prod.splits)
      then show ?thesis by (rule at)
    qed
  qed
  from ex shorter [of s skipped m rest]
  show "((f, rest, f st m), f, s, st) \<in> measure (\<lambda>(f, s, st). length s)"
    by simp
qed simp

function paragraph_replace :: "(paragraph_match \<Rightarrow> string) \<Rightarrow> string \<Rightarrow> string" where
  "paragraph_replace callback s =
     (case regexp_exec match_paragraph_at s of
        None \<Rightarrow> s
      | Some (skipped, m, rest) \<Rightarrow> skipped @ callback m @ paragraph_replace callback rest)"
  by pat_completeness auto
termination
proof (relation "measure (\<lambda>(f, s). length s)")
  fix f :: "paragraph_match \<Rightarrow> string" and s :: string and x2 skipped y m rest
  assume ex: "regexp_exec match_paragraph_at s = Some x2" "(skipped, y) = x2" "(m, rest) = y"
  have sp: "length r + length p = length u" if "strip_prefix p u = Some r" for p u r
    using that by (induction p u rule: strip_prefix.induct) (auto split: if_splits)
  have lu: "length r \<le> length u" if "lazy_until lit u = Some (c, r)" for lit u c r
    using that by (induction u arbitrary: c) (auto split: option.splits dest: sp)
  have at: "length r < length u" if "match_paragraph_at u = Some (m', r)" for u m' r
  proof -
    from that obtain r1 g b content where
      1: "strip_prefix ''<w:p'' u = Some r1" and 2: "dropWhile not_gt r1 = g # b"
      and 3: "lazy_until ''</w:p>'' b = Some (content, r)"
      by (auto simp: match_paragraph_at_def split: option.splits prod.splits list.splits if_splits)
    from sp [OF 1] lu [OF 3] 2 length_dropWhile_le [of not_gt r1]
    show ?thesis by simp
  qed
  have shorter: "length r < length u" if "regexp_exec match_paragraph_at u = Some (p, m', r)" for u p m' r
    using that
  proof (induction u arbitrary: p)
    case Nil
    then show ?case by (auto split: option.splits dest: at)
  next
    case (Cons c cs)
    show ?case
    proof (cases "match_paragraph_at (c # cs)")
      case None
      with Cons.prems obtain p' where "regexp_exec match_paragraph_at cs = Some (p', m', r)"
        by (auto split: option.splits)
      from Cons.IH [OF this] show ?thesis by simp
    next
      case (Some a)
      with Cons.prems have "match_paragraph_at (c # cs) = Some (m', r)" by (auto split: prod.splits)
      then show ?thesis by (rule at)
    qed
  qed
  from ex shorter [of s skipped m rest]
  show "((f, rest), f, s) \<in> measure (\<lambda>(f, s). length s)"
    by simp
qed simp

section \<open>xml-utils.ts: the segment extractor and the text injector\<close>

record ParagraphSegment =
  seg_id :: string
  seg_text :: string
  seg_translation :: "string option"
  seg_source :: string
  seg_runCount :: nat

record ExtractResult =
  segments :: "ParagraphSegment list"
  nextId :: number

definition push_text :: "string list \<Rightarrow> text_match \<Rightarrow> string list" where
  \<comment> \<open>\<^verbatim>\<open>texts.push(textMatch[2] || '')\<close>\<close>
  "push_text texts textMatch = (case textMatch of (whole, attrs, inner) \<Rightarrow> texts @ [inner])"

definition extract_texts :: "string \<Rightarrow> string list" where
  \<comment> \<open>the inner \<^verbatim>\<open>while\<close> loop of \<^verbatim>\<open>extractParagraphSegments\<close>, from \<^verbatim>\<open>texts = []\<close>\<close>
  "extract_texts paragraphContent = text_exec_loop push_text paragraphContent []"

definition inject_texts :: "string \<Rightarrow> string list" where
  \<comment> \<open>the \<^verbatim>\<open>while\<close> loop in the callback of \<^verbatim>\<open>replaceParagraphText\<close>, from \<^verbatim>\<open>texts = []\<close>\<close>
  "inject_texts paragraphContent = text_exec_loop push_text paragraphContent []"

definition extract_step :: "string \<Rightarrow> ParagraphSegment list \<times> number \<Rightarrow> paragraph_match
    \<Rightarrow> ParagraphSegment list \<times> number" where
  \<comment> \<open>the body of the \<^verbatim>\<open>while\<close> loop of \<^verbatim>\<open>extractParagraphSegments\<close>; its state is
      \<^verbatim>\<open>segments\<close> and \<^verbatim>\<open>id\<close>\<close>
  "extract_step source st m =
     (case st of (segs, idn) \<Rightarrow>
      case m of (fullMatch, paragraphContent) \<Rightarrow>
        let texts = extract_texts paragraphContent;
            combinedText = join [] texts
        in if length (trim combinedText) = 0 then (segs, idn)
           else (segs @ [\<lparr>seg_id = ''p'' @ number_toString idn, seg_text = combinedText,
                           seg_translation = None, seg_source = source,
                           seg_runCount = length texts\<rparr>],
                 number_increment idn))"

definition extractParagraphSegments :: "string \<Rightarrow> string \<Rightarrow> number \<Rightarrow> ExtractResult" where
  \<comment> \<open>\<^verbatim>\<open>startId\<close> is the argument the caller gives; one left out is 0\<close>
  "extractParagraphSegments xml source startId =
     (case paragraph_exec_loop (extract_step source) xml ([], startId) of
        (segs, idn) \<Rightarrow> \<lparr>segments = segs, nextId = idn\<rparr>)"

definition rewrite_run :: "string \<Rightarrow> bool \<Rightarrow> text_match \<Rightarrow> string \<times> bool" where
  \<comment> \<open>the callback of the inner \<^verbatim>\<open>replace\<close>; its state is \<^verbatim>\<open>isFirst\<close>\<close>
  "rewrite_run translation isFirst textMatch =
     (case textMatch of (whole, attrs, inner) \<Rightarrow>
        if isFirst
        then (''<w:t'' @ or_empty attrs @ ''>'' @ escapeXml translation @ ''</w:t>'', False)
        else (''<w:t'' @ or_empty attrs @ ''>'' @ ''</w:t>'', isFirst))"

definition open_tag_attrs :: "string \<Rightarrow> string" where
  \<comment> \<open>\<^verbatim>\<open>fullMatch.match(/<w:p(\s[^>]*)?>/)?.[1] || ''\<close>\<close>
  "open_tag_attrs fullMatch =
     or_empty (case regexp_exec match_open_tag_at fullMatch of
                 None \<Rightarrow> None
               | Some (skipped, attrs, rest) \<Rightarrow> attrs)"

definition replace_paragraph :: "(string \<rightharpoonup> string) \<Rightarrow> paragraph_match \<Rightarrow> string" where
  \<comment> \<open>the callback of the outer \<^verbatim>\<open>replace\<close> of \<^verbatim>\<open>replaceParagraphText\<close>\<close>
  "replace_paragraph translations m =
     (case m of (fullMatch, paragraphContent) \<Rightarrow>
        let texts = inject_texts paragraphContent;
            originalText = join [] texts
        in case translations originalText of
             None \<Rightarrow> fullMatch
           | Some translation \<Rightarrow>
               let newParagraphContent = text_replace (rewrite_run translation) paragraphContent True
               in ''<w:p'' @ open_tag_attrs fullMatch @ ''>'' @ newParagraphContent @ ''</w:p>'')"

definition replaceParagraphText :: "string \<Rightarrow> (string \<rightharpoonup> string) \<Rightarrow> string" where
  "replaceParagraphText xml translations = paragraph_replace (replace_paragraph translations) xml"

section \<open>docx-utils.ts: reading a package entry\<close>







section \<open>extract.ts and inject.ts: the plain-text form\<close>

definition simpleFormat :: "ParagraphSegment list \<Rightarrow> string" where
  \<comment> \<open>\<^verbatim>\<open>allSegments.map(seg => `[${seg.id}]\n${seg.text}\n`).join('\n')\<close>\<close>
  "simpleFormat allSegments =
     join ''\<newline>''
       (map (\<lambda>seg. ''['' @ seg_id seg @ '']'' @ ''\<newline>'' @ seg_text seg @ ''\<newline>'') allSegments)"

definition id_line :: "string \<Rightarrow> string option" where
  \<comment> \<open>group 1 of \<^verbatim>\<open>line.match(/^\[(p\d+)\]$/)\<close>.  The greedy \<^verbatim>\<open>\d+\<close> gives back digits
      only, none of which is the bracket that has to follow.\<close>
  "id_line line =
     (case strip_prefix ''[p'' line of
        None \<Rightarrow> None
      | Some r \<Rightarrow>
          if takeWhile is_digit_char r \<noteq> [] \<and> dropWhile is_digit_char r = '']''
          then Some (''p'' @ takeWhile is_digit_char r)
          else None)"

fun map_set :: "string \<Rightarrow> string \<Rightarrow> (string \<times> string) list \<Rightarrow> (string \<times> string) list" where
  \<comment> \<open>\<^verbatim>\<open>Map.prototype.set\<close>: a \<^verbatim>\<open>Map\<close> keeps its keys in the order of their first insertion\<close>
  "map_set k v [] = [(k, v)]"
| "map_set k v ((k', v') # kvs) = (if k' = k then (k, v) # kvs else (k', v') # map_set k v kvs)"

definition save_paragraph :: "(string \<times> string) list \<Rightarrow> string option \<Rightarrow> string list
    \<Rightarrow> (string \<times> string) list" where
  \<comment> \<open>\<^verbatim>\<open>if (currentId !== null && currentText.length > 0) translations.set(...)\<close>\<close>
  "save_paragraph translations currentId currentText =
     (case currentId of
        None \<Rightarrow> translations
      | Some cid \<Rightarrow>
          if length currentText > 0
          then map_set cid (trim (join ''\<newline>'' currentText)) translations
          else translations)"

definition parse_line :: "(string \<times> string) list \<times> string option \<times> string list \<Rightarrow> string
    \<Rightarrow> (string \<times> string) list \<times> string option \<times> string list" where
  \<comment> \<open>the body of the \<^verbatim>\<open>for\<close> loop of \<^verbatim>\<open>parseTxtTranslations\<close>; its state is
      \<^verbatim>\<open>translations\<close>, \<^verbatim>\<open>currentId\<close> and \<^verbatim>\<open>currentText\<close>\<close>
  "parse_line st line =
     (case st of (translations, currentId, currentText) \<Rightarrow>
        (case id_line line of
           Some newId \<Rightarrow> (save_paragraph translations currentId currentText, Some newId, [])
         | None \<Rightarrow>
             (case currentId of
                Some cid \<Rightarrow> (translations, currentId, currentText @ [line])
              | None \<Rightarrow> (translations, currentId, currentText))))"

definition parseTxtTranslations :: "string \<Rightarrow> (string \<times> string) list" where
  "parseTxtTranslations content =
     (case foldl parse_line ([], None, []) (split (CHR 0x0A) content) of
        (translations, currentId, currentText) \<Rightarrow>
          save_paragraph translations currentId currentText)"

section \<open>The paragraph blocks and the text runs the two rules find\<close>

text \<open>
  The claims speak of the paragraph blocks of a document part and of the text-run elements
  of a paragraph: they are the successive matches of the two expressions, collected by the
  loop the code runs.
\<close>

definition collect :: "'m list \<Rightarrow> 'm \<Rightarrow> 'm list" where
  "collect acc m = acc @ [m]"

definition paragraph_blocks :: "string \<Rightarrow> paragraph_match list" where
  \<comment> \<open>whole match and captured content of every paragraph block, in document order\<close>
  "paragraph_blocks xml = paragraph_exec_loop collect xml []"

definition text_runs :: "string \<Rightarrow> text_match list" where
  \<comment> \<open>whole element, attributes and inner text of every text run, in document order\<close>
  "text_runs paragraphContent = text_exec_loop collect paragraphContent []"

definition reconstructed_text :: "string \<Rightarrow> string" where
  \<comment> \<open>the key the injector looks up for a paragraph content\<close>
  "reconstructed_text paragraphContent = join [] (inject_texts paragraphContent)"

definition kept :: "paragraph_match \<Rightarrow> bool" where
  \<comment> \<open>the blocks the extractor does not skip: the combined text is not blank\<close>
  "kept m = (trim (join [] (extract_texts (snd m))) \<noteq> [])"

definition segment_of :: "string \<Rightarrow> number \<times> paragraph_match \<Rightarrow> ParagraphSegment" where
  \<comment> \<open>the segment the extractor pushes for a block when the counter stands at \<open>fst im\<close>\<close>
  "segment_of source im =
     \<lparr>seg_id = ''p'' @ number_toString (fst im),
      seg_text = join [] (extract_texts (snd (snd im))),
      seg_translation = None,
      seg_source = source,
      seg_runCount = length (extract_texts (snd (snd im)))\<rparr>"

definition valid_attrs :: "string option \<Rightarrow> bool" where
  \<comment> \<open>what group 1 of the run rule can capture: nothing, or a white-space character
      followed by characters other than \<^verbatim>\<open>>\<close>\<close>
  "valid_attrs a =
     (case a of
        None \<Rightarrow> True
      | Some A \<Rightarrow> A \<noteq> [] \<and> is_space_char (hd A) \<and> CHR ''>'' \<notin> set A)"

definition run_element :: "string option \<Rightarrow> string \<Rightarrow> string" where
  \<comment> \<open>the text-run element with the given attributes and inner text\<close>
  "run_element a x = ''<w:t'' @ or_empty a @ ''>'' @ x @ ''</w:t>''"

definition emptied :: "text_match \<Rightarrow> text_match" where
  \<comment> \<open>a text run with its attributes kept and its inner text removed\<close>
  "emptied m = (run_element (fst (snd m)) [], fst (snd m), [])"

definition first_of :: "'a list \<Rightarrow> 'a option" where
  "first_of xs = (case xs of [] \<Rightarrow> None | x # ys \<Rightarrow> Some x)"

definition last_prev :: "char option \<Rightarrow> string \<Rightarrow> char option" where
  \<comment> \<open>the character before the position once \<open>u\<close> has been consumed\<close>
  "last_prev p u = (if u = [] then p else Some (last u))"

definition text_tail :: regex where
  "text_tail = Seq (Grp 2 (Star (Cls not_lt))) (Str ''</w:t>'')"

definition attrs_group :: regex where
  "attrs_group = Opt (Grp 1 (Seq (Cls is_space_char) (Star (Cls not_gt))))"

definition paragraph_tail :: regex where
  "paragraph_tail = Seq (Grp 1 (Lazy (Cls (\<lambda>c. True)))) (Str ''</w:p>'')"

definition caps_of :: "string option \<Rightarrow> (nat \<times> string) list \<Rightarrow> (nat \<times> string) list" where
  \<comment> \<open>the captures with group 1 added when it took part\<close>
  "caps_of a caps = (case a of None \<Rightarrow> caps | Some A \<Rightarrow> (1, A) # caps)"

text \<open>
  A paragraph element written out from its tag rest and its content, the tag rests the
  paragraph rule accepts, and the content \<open>replaceParagraphText\<close> gives a paragraph.
\<close>

definition paragraph_text :: "string \<Rightarrow> string \<Rightarrow> string" where
  "paragraph_text T c = ''<w:p'' @ T @ ''>'' @ c @ ''</w:p>''"

definition valid_tag :: "string \<Rightarrow> bool" where
  "valid_tag T = (CHR ''>'' \<notin> set T \<and> (T = [] \<or> \<not> is_word_char (hd T)))"

definition rewritten_content :: "(string \<rightharpoonup> string) \<Rightarrow> string \<Rightarrow> string" where
  "rewritten_content tr c =
     (case tr (reconstructed_text c) of
        None \<Rightarrow> c
      | Some t \<Rightarrow> text_replace (rewrite_run t) c True)"

declare text_exec_loop.simps [simp del] text_replace.simps [simp del]
  paragraph_exec_loop.simps [simp del] paragraph_replace.simps [simp del]
  decimal.simps [simp del] backtrack.simps [simp del] Str.simps [simp del]

section \<open>Lemmas about the matchers and the loops\<close>

lemma join_empty: "join [] xs = concat xs"
  by (induction "[]::string" xs rule: join.induct) auto

lemma strip_prefix_Some_iff: "strip_prefix p s = Some r \<longleftrightarrow> s = p @ r"
  by (induction p s rule: strip_prefix.induct) auto

lemma strip_prefix_append [simp]: "strip_prefix p (p @ r) = Some r"
  by (simp add: strip_prefix_Some_iff)

lemma optional_attrs_length: "optional_attrs r = (a, r') \<Longrightarrow> length r' \<le> length r"
  using length_dropWhile_le [of not_gt r]
  by (auto simp: optional_attrs_def split: list.splits if_splits)

lemma match_text_at_shorter:
  assumes "match_text_at s = Some (m, rest)"
  shows "length rest < length s"
proof -
  from assms obtain r1 a r2 b where
    1: "strip_prefix ''<w:t'' s = Some r1" and 2: "optional_attrs r1 = (a, r2)"
    and 3: "strip_prefix ''>'' r2 = Some b"
    and 4: "strip_prefix ''</w:t>'' (dropWhile not_lt b) = Some rest"
    by (auto simp: match_text_at_def split: option.splits prod.splits)
  from 1 3 4 optional_attrs_length [OF 2] length_dropWhile_le [of not_lt b]
  show ?thesis by (auto simp: strip_prefix_Some_iff)
qed

lemma regexp_exec_shorter:
  assumes "\<And>u m r. at u = Some (m, r) \<Longrightarrow> length r < length u"
  shows "regexp_exec at s = Some (pre, m, rest) \<Longrightarrow> length rest < length s"
proof (induction s arbitrary: pre)
  case Nil
  then show ?case by (auto split: option.splits dest: assms)
next
  case (Cons c cs)
  then show ?case
    by (auto split: option.splits dest!: assms)
qed

lemma regexp_exec_append:
  assumes "\<And>u m r. at u = Some (m, r) \<Longrightarrow> u = whole m @ r"
  shows "regexp_exec at s = Some (pre, m, rest) \<Longrightarrow> s = pre @ whole m @ rest"
proof (induction s arbitrary: pre)
  case Nil
  then show ?case by (auto split: option.splits dest: assms)
next
  case (Cons c cs)
  then show ?case
    by (auto split: option.splits dest: assms)
qed

lemma strip_prefix_length: "strip_prefix p s = Some r \<Longrightarrow> length r \<le> length s"
  by (auto simp: strip_prefix_Some_iff)

lemma lazy_until_length: "lazy_until lit u = Some (c, r) \<Longrightarrow> length r \<le> length u"
  by (induction u arbitrary: c) (auto split: option.splits dest: strip_prefix_length)

lemma lazy_until_append: "lazy_until lit u = Some (c, r) \<Longrightarrow> u = c @ lit @ r"
  by (induction u arbitrary: c) (auto simp: strip_prefix_Some_iff split: option.splits)

lemma match_paragraph_at_shorter:
  assumes "match_paragraph_at s = Some (m, rest)"
  shows "length rest < length s"
proof -
  from assms obtain r1 g b content where
    1: "strip_prefix ''<w:p'' s = Some r1" and 2: "dropWhile not_gt r1 = g # b"
    and 3: "lazy_until ''</w:p>'' b = Some (content, rest)"
    by (auto simp: match_paragraph_at_def split: option.splits prod.splits list.splits if_splits)
  from 1 lazy_until_length [OF 3] 2 length_dropWhile_le [of not_gt r1]
  show ?thesis by (auto simp: strip_prefix_Some_iff)
qed

lemma match_paragraph_at_append:
  assumes "match_paragraph_at s = Some (m, rest)"
  shows "s = fst m @ rest"
proof -
  from assms obtain r1 g b content where
    1: "strip_prefix ''<w:p'' s = Some r1" and 2: "dropWhile not_gt r1 = g # b"
    and 3: "lazy_until ''</w:p>'' b = Some (content, rest)"
    and 4: "m = (''<w:p'' @ takeWhile not_gt r1 @ ''>'' @ content @ ''</w:p>'', content)"
    by (auto simp: match_paragraph_at_def split: option.splits prod.splits list.splits if_splits)
  from 2 have "g = CHR ''>''"
    by (metis hd_dropWhile list.sel(1) list.distinct(1) not_gt_def)
  with 2 have "r1 = takeWhile not_gt r1 @ ''>'' @ b"
    by (metis takeWhile_dropWhile_id append_Cons append_Nil)
  with 1 4 lazy_until_append [OF 3] show ?thesis
    by (simp add: strip_prefix_Some_iff)
qed

lemma exec_paragraph_shorter:
  "regexp_exec match_paragraph_at s = Some (pre, m, rest) \<Longrightarrow> length rest < length s"
  by (erule regexp_exec_shorter [rotated]) (rule match_paragraph_at_shorter)

lemma exec_text_shorter:
  "regexp_exec match_text_at s = Some (pre, m, rest) \<Longrightarrow> length rest < length s"
  by (erule regexp_exec_shorter [rotated]) (rule match_text_at_shorter)

lemma exec_paragraph_append:
  "regexp_exec match_paragraph_at s = Some (pre, m, rest) \<Longrightarrow> s = pre @ fst m @ rest"
  by (erule regexp_exec_append [rotated]) (rule match_paragraph_at_append)

lemma paragraph_exec_loop_collect:
  "paragraph_exec_loop collect s acc = acc @ paragraph_exec_loop collect s []"
proof (induction "length s" arbitrary: s acc rule: less_induct)
  case less
  show ?case
  proof (cases "regexp_exec match_paragraph_at s")
    case None
    then show ?thesis by (simp add: paragraph_exec_loop.simps [of _ s])
  next
    case (Some a)
    then obtain pre m rest where a: "regexp_exec match_paragraph_at s = Some (pre, m, rest)"
      by (cases a) auto
    from exec_paragraph_shorter [OF a] have "length rest < length s" .
    from less [OF this, of "acc @ [m]"] less [OF this, of "[m]"] a show ?thesis
      by (simp add: paragraph_exec_loop.simps [of _ s] collect_def)
  qed
qed

lemma paragraph_blocks_unfold:
  "paragraph_blocks s =
     (case regexp_exec match_paragraph_at s of
        None \<Rightarrow> []
      | Some (pre, m, rest) \<Rightarrow> m # paragraph_blocks rest)"
  unfolding paragraph_blocks_def
  by (subst paragraph_exec_loop.simps)
     (auto split: option.splits simp: collect_def paragraph_exec_loop_collect [of _ "[_]"])

lemma paragraph_exec_loop_foldl:
  "paragraph_exec_loop body s st = foldl body st (paragraph_blocks s)"
proof (induction "length s" arbitrary: s st rule: less_induct)
  case less
  show ?case
  proof (cases "regexp_exec match_paragraph_at s")
    case None
    then show ?thesis
      by (simp add: paragraph_exec_loop.simps [of _ s] paragraph_blocks_unfold [of s])
  next
    case (Some a)
    then obtain pre m rest where a: "regexp_exec match_paragraph_at s = Some (pre, m, rest)"
      by (cases a) auto
    from exec_paragraph_shorter [OF a] have "length rest < length s" .
    from less [OF this] a show ?thesis
      by (simp add: paragraph_exec_loop.simps [of _ s] paragraph_blocks_unfold [of s])
  qed
qed

lemma text_exec_loop_collect:
  "text_exec_loop collect s acc = acc @ text_exec_loop collect s []"
proof (induction "length s" arbitrary: s acc rule: less_induct)
  case less
  show ?case
  proof (cases "regexp_exec match_text_at s")
    case None
    then show ?thesis by (simp add: text_exec_loop.simps [of _ s])
  next
    case (Some a)
    then obtain pre m rest where a: "regexp_exec match_text_at s = Some (pre, m, rest)"
      by (cases a) auto
    from exec_text_shorter [OF a] have "length rest < length s" .
    from less [OF this, of "acc @ [m]"] less [OF this, of "[m]"] a show ?thesis
      by (simp add: text_exec_loop.simps [of _ s] collect_def)
  qed
qed

lemma text_runs_unfold:
  "text_runs s =
     (case regexp_exec match_text_at s of
        None \<Rightarrow> []
      | Some (pre, m, rest) \<Rightarrow> m # text_runs rest)"
  unfolding text_runs_def
  by (subst text_exec_loop.simps)
     (auto split: option.splits simp: collect_def text_exec_loop_collect [of _ "[_]"])

lemma text_exec_loop_foldl:
  "text_exec_loop body s st = foldl body st (text_runs s)"
proof (induction "length s" arbitrary: s st rule: less_induct)
  case less
  show ?case
  proof (cases "regexp_exec match_text_at s")
    case None
    then show ?thesis
      by (simp add: text_exec_loop.simps [of _ s] text_runs_unfold [of s])
  next
    case (Some a)
    then obtain pre m rest where a: "regexp_exec match_text_at s = Some (pre, m, rest)"
      by (cases a) auto
    from exec_text_shorter [OF a] have "length rest < length s" .
    from less [OF this] a show ?thesis
      by (simp add: text_exec_loop.simps [of _ s] text_runs_unfold [of s])
  qed
qed

lemma foldl_push_text: "foldl push_text acc ms = acc @ map (\<lambda>m. snd (snd m)) ms"
  by (induction ms arbitrary: acc) (auto simp: push_text_def split: prod.splits)

lemma extract_texts_runs: "extract_texts s = map (\<lambda>m. snd (snd m)) (text_runs s)"
  by (simp add: extract_texts_def text_exec_loop_foldl foldl_push_text)

lemma inject_texts_runs: "inject_texts s = map (\<lambda>m. snd (snd m)) (text_runs s)"
  by (simp add: inject_texts_def text_exec_loop_foldl foldl_push_text)


lemma paragraph_replace_unfold:
  "paragraph_replace f s =
     (case regexp_exec match_paragraph_at s of
        None \<Rightarrow> s
      | Some (pre, m, rest) \<Rightarrow> pre @ f m @ paragraph_replace f rest)"
  by (subst paragraph_replace.simps) (auto split: option.splits)

lemma paragraph_replace_id:
  "(\<And>m. m \<in> set (paragraph_blocks s) \<Longrightarrow> f m = fst m) \<Longrightarrow> paragraph_replace f s = s"
proof (induction "length s" arbitrary: s rule: less_induct)
  case less
  show ?case
  proof (cases "regexp_exec match_paragraph_at s")
    case None
    then show ?thesis by (simp add: paragraph_replace_unfold [of _ s])
  next
    case (Some a)
    then obtain pre m rest where a: "regexp_exec match_paragraph_at s = Some (pre, m, rest)"
      by (cases a) auto
    from a have blocks: "paragraph_blocks s = m # paragraph_blocks rest"
      by (simp add: paragraph_blocks_unfold [of s])
    from exec_paragraph_shorter [OF a] have "length rest < length s" .
    then have "paragraph_replace f rest = rest"
      by (rule less.hyps) (simp add: less.prems blocks)
    moreover have "f m = fst m" by (rule less.prems) (simp add: blocks)
    moreover have "paragraph_replace f s = pre @ f m @ paragraph_replace f rest"
      using a by (simp add: paragraph_replace_unfold [of _ s])
    ultimately show ?thesis
      using exec_paragraph_append [OF a] by simp
  qed
qed

lemma replace_paragraph_no_key:
  "translations (reconstructed_text paragraphContent) = None \<Longrightarrow>
   replace_paragraph translations (fullMatch, paragraphContent) = fullMatch"
  by (simp add: replace_paragraph_def reconstructed_text_def Let_def)

lemma number_value_increment:
  "number_value (number_increment k) = (if number_value k < 2 ^ 53 then number_value k + 1 else number_value k)"
  by (rule number_increment.rep_eq)

lemma number_value_funpow:
  "number_value k + int n \<le> 2 ^ 53 \<Longrightarrow>
   number_value ((number_increment ^^ n) k) = number_value k + int n"
  by (induction n) (simp_all add: number_value_increment)

lemma number_toString_value: "number_toString k = decimal_int (number_value k)"
  by (rule number_toString.rep_eq)

lemma extract_step_kept:
  "kept m \<Longrightarrow>
   extract_step source (segs, k) m = (segs @ [segment_of source (k, m)], number_increment k)"
  by (cases m) (simp add: extract_step_def kept_def segment_of_def Let_def)

lemma extract_step_blank:
  "\<not> kept m \<Longrightarrow> extract_step source (segs, k) m = (segs, k)"
  by (cases m) (simp add: extract_step_def kept_def Let_def)

lemma foldl_extract_step:
  "foldl (extract_step source) (segs, k) ms =
     (segs @ map (\<lambda>im. segment_of source ((number_increment ^^ fst im) k, snd im))
               (enumerate 0 (filter kept ms)),
      (number_increment ^^ length (filter kept ms)) k)"
proof (induction ms arbitrary: segs k)
  case Nil
  then show ?case by simp
next
  case (Cons m ms)
  show ?case
  proof (cases "kept m")
    case True
    have "map (\<lambda>im. segment_of source ((number_increment ^^ fst im) (number_increment k), snd im))
            (enumerate 0 (filter kept ms)) =
          map (\<lambda>im. segment_of source ((number_increment ^^ fst im) k, snd im))
            (enumerate (Suc 0) (filter kept ms))"
      by (simp add: enumerate_Suc_eq [of 0] comp_def funpow_swap1)
    with True Cons.IH [of "segs @ [segment_of source (k, m)]" "number_increment k"]
    show ?thesis by (simp add: extract_step_kept funpow_swap1)
  next
    case False
    with Cons.IH [of segs k] show ?thesis by (simp add: extract_step_blank)
  qed
qed

lemma extractParagraphSegments_blocks:
  "extractParagraphSegments xml source startId =
     \<lparr>segments = map (\<lambda>im. segment_of source ((number_increment ^^ fst im) startId, snd im))
                   (enumerate 0 (filter kept (paragraph_blocks xml))),
      nextId = (number_increment ^^ length (filter kept (paragraph_blocks xml))) startId\<rparr>"
  by (simp add: extractParagraphSegments_def paragraph_exec_loop_foldl foldl_extract_step)

lemma segments_length:
  "length (segments (extractParagraphSegments xml source startId)) =
     length (filter kept (paragraph_blocks xml))"
  by (simp add: extractParagraphSegments_blocks)

lemma segments_nth:
  "i < length (filter kept (paragraph_blocks xml)) \<Longrightarrow>
   segments (extractParagraphSegments xml source startId) ! i =
     segment_of source ((number_increment ^^ i) startId, filter kept (paragraph_blocks xml) ! i)"
  by (simp add: extractParagraphSegments_blocks nth_enumerate_eq)




lemma filter_kept_blanks:
  "\<forall>b \<in> set blanks. \<not> kept b \<Longrightarrow> filter kept (before @ blanks @ m # rest) =
     filter kept before @ filter kept (m # rest)"
  by (induction blanks) simp_all

section \<open>Lemmas about the run rule\<close>

lemma first_occurrence_unique:
  "u @ c # v = u' @ c # v' \<Longrightarrow> c \<notin> set u \<Longrightarrow> c \<notin> set u' \<Longrightarrow> u = u' \<and> v = v'"
proof (induction u arbitrary: u')
  case Nil
  then show ?case by (cases u') auto
next
  case (Cons a u)
  then show ?case by (cases u') auto
qed

lemma prefix_window:
  assumes "p @ r = b @ c # x" and "c \<notin> set (tl p)" and "b \<noteq> []"
  shows "\<exists>b'. b = p @ b'"
proof -
  from assms(1) obtain us where "p = b @ us \<and> us @ r = c # x \<or> p @ us = b \<and> r = us @ c # x"
    by (auto simp: append_eq_append_conv2)
  then show ?thesis
  proof
    assume a: "p = b @ us \<and> us @ r = c # x"
    show ?thesis
    proof (cases us)
      case Nil
      with a show ?thesis by simp
    next
      case (Cons d ds)
      with a have "d = c" by simp
      with a Cons assms(3) have "c \<in> set (tl p)" by (cases b) auto
      with assms(2) show ?thesis by contradiction
    qed
  next
    assume "p @ us = b \<and> r = us @ c # x"
    then show ?thesis by blast
  qed
qed

lemma space_not_gt: "is_space_char c \<Longrightarrow> not_gt c"
  by (auto simp: is_space_char_def not_gt_def)

lemma takeWhile_not_lt [simp]: "CHR ''<'' \<notin> set x \<Longrightarrow> takeWhile not_lt (x @ CHR ''<'' # r) = x"
  by (induction x) (auto simp: not_lt_def)

lemma dropWhile_not_lt [simp]: "CHR ''<'' \<notin> set x \<Longrightarrow> dropWhile not_lt (x @ CHR ''<'' # r) = CHR ''<'' # r"
  by (induction x) (auto simp: not_lt_def)

lemma takeWhile_not_gt [simp]: "CHR ''>'' \<notin> set x \<Longrightarrow> takeWhile not_gt (x @ CHR ''>'' # r) = x"
  by (induction x) (auto simp: not_gt_def)

lemma dropWhile_not_gt [simp]: "CHR ''>'' \<notin> set x \<Longrightarrow> dropWhile not_gt (x @ CHR ''>'' # r) = CHR ''>'' # r"
  by (induction x) (auto simp: not_gt_def)

lemma takeWhile_not_gt_free: "CHR ''>'' \<notin> set (takeWhile not_gt r)"
  by (auto dest: set_takeWhileD simp: not_gt_def)

lemma takeWhile_not_lt_free: "CHR ''<'' \<notin> set (takeWhile not_lt r)"
  by (auto dest: set_takeWhileD simp: not_lt_def)

lemma optional_attrs_valid:
  assumes "optional_attrs r = (a, r')"
  shows "valid_attrs a \<and> r = or_empty a @ r'"
proof (cases r)
  case Nil
  with assms show ?thesis by (auto simp: optional_attrs_def valid_attrs_def or_empty_def)
next
  case (Cons c cs)
  show ?thesis
  proof (cases "is_space_char c")
    case True
    with Cons assms have a: "a = Some (takeWhile not_gt r)" "r' = dropWhile not_gt r"
      by (auto simp: optional_attrs_def)
    from True Cons have "takeWhile not_gt r = c # takeWhile not_gt cs"
      by (simp add: space_not_gt)
    moreover have "r = takeWhile not_gt r @ dropWhile not_gt r" by simp
    ultimately have "valid_attrs a" and "r = or_empty a @ r'"
      using a True takeWhile_not_gt_free [of r]
      by (simp_all add: valid_attrs_def or_empty_def del: takeWhile_dropWhile_id)
    then show ?thesis by simp
  next
    case False
    with Cons assms show ?thesis by (auto simp: optional_attrs_def valid_attrs_def or_empty_def)
  qed
qed

lemma optional_attrs_None:
  "optional_attrs r = (None, r') \<Longrightarrow> r' = r \<and> (case r of [] \<Rightarrow> True | c # cs \<Rightarrow> \<not> is_space_char c)"
  by (auto simp: optional_attrs_def split: list.splits if_splits)

lemma match_text_at_SomeD:
  assumes "match_text_at s = Some ((w, a, x), r)"
  shows "valid_attrs a \<and> CHR ''<'' \<notin> set x \<and> w = run_element a x \<and> s = w @ r"
proof -
  from assms obtain r1 r2 b where
    1: "strip_prefix ''<w:t'' s = Some r1" and 2: "optional_attrs r1 = (a, r2)"
    and 3: "strip_prefix ''>'' r2 = Some b"
    and 4: "strip_prefix ''</w:t>'' (dropWhile not_lt b) = Some r"
    and 5: "x = takeWhile not_lt b" and 6: "w = ''<w:t'' @ or_empty a @ ''>'' @ x @ ''</w:t>''"
    by (auto simp: match_text_at_def split: option.splits prod.splits)
  from 5 have "CHR ''<'' \<notin> set x" by (simp add: takeWhile_not_lt_free)
  moreover from 4 5 have "b = x @ ''</w:t>'' @ r"
    by (metis strip_prefix_Some_iff takeWhile_dropWhile_id)
  moreover note optional_attrs_valid [OF 2] 1 3 6
  ultimately show ?thesis
    by (simp add: strip_prefix_Some_iff run_element_def)
qed

lemma optional_attrs_intro:
  assumes "valid_attrs a"
  shows "optional_attrs (or_empty a @ CHR ''>'' # r) = (a, CHR ''>'' # r)"
proof (cases a)
  case None
  have "\<not> is_space_char (CHR ''>'')" using space_not_gt [of "CHR ''>''"] by (auto simp: not_gt_def)
  with None show ?thesis by (simp add: optional_attrs_def or_empty_def)
next
  case (Some A)
  with assms obtain c cs where A: "A = c # cs" "is_space_char c" and gt: "CHR ''>'' \<notin> set A"
    by (cases A) (auto simp: valid_attrs_def)
  from gt have tw: "takeWhile not_gt (A @ CHR ''>'' # r) = A"
    and dw: "dropWhile not_gt (A @ CHR ''>'' # r) = CHR ''>'' # r"
    by simp_all
  from A have "optional_attrs (A @ CHR ''>'' # r) =
      (Some (takeWhile not_gt (A @ CHR ''>'' # r)), dropWhile not_gt (A @ CHR ''>'' # r))"
    by (simp add: optional_attrs_def)
  then have "optional_attrs (A @ CHR ''>'' # r) = (Some A, CHR ''>'' # r)"
    by (simp only: tw dw)
  with Some A(1) show ?thesis by (simp add: or_empty_def)
qed

lemma match_text_at_intro:
  assumes "valid_attrs a" and "CHR ''<'' \<notin> set x"
  shows "match_text_at (run_element a x @ r) = Some ((run_element a x, a, x), r)"
  using assms(2) optional_attrs_intro [OF assms(1), of "x @ ''</w:t>'' @ r"]
  by (simp add: match_text_at_def run_element_def)

lemma or_empty_no_gt: "valid_attrs a \<Longrightarrow> CHR ''>'' \<notin> set (or_empty a)"
  by (cases a) (auto simp: valid_attrs_def or_empty_def)

lemma match_text_at_gap:
  assumes g: "g \<noteq> []" and a: "valid_attrs a" and x: "CHR ''<'' \<notin> set x"
    and some: "match_text_at (g @ run_element a e @ r') = Some (m, r2)"
  shows "match_text_at (g @ run_element a x @ r) \<noteq> None"
proof -
  obtain w a2 x2 where m: "m = (w, a2, x2)" by (cases m) auto
  define A where "A = or_empty a"
  define A2 where "A2 = or_empty a2"
  from match_text_at_SomeD [OF some [unfolded m]]
  have a2: "valid_attrs a2" and x2: "CHR ''<'' \<notin> set x2"
    and eq: "g @ run_element a e @ r' = run_element a2 x2 @ r2"
    by simp_all
  from a a2 have gtA: "CHR ''>'' \<notin> set A" and gtA2: "CHR ''>'' \<notin> set A2"
    by (simp_all add: A_def A2_def or_empty_no_gt)
  from eq have eq1: "''<w:t'' @ (A2 @ ''>'' @ x2 @ ''</w:t>'' @ r2) =
      g @ CHR ''<'' # (''w:t'' @ A @ ''>'' @ e @ ''</w:t>'' @ r')"
    by (simp add: run_element_def A_def A2_def)
  from prefix_window [OF eq1 _ g] obtain g1 where g1: "g = ''<w:t'' @ g1"
    by auto
  from eq1 g1 have eq2: "g1 @ ''<w:t'' @ A @ CHR ''>'' # (e @ ''</w:t>'' @ r') =
      A2 @ CHR ''>'' # (x2 @ ''</w:t>'' @ r2)"
    by simp
  show ?thesis
  proof (cases "CHR ''>'' \<in> set g1")
    case True
    then obtain u v where uv: "g1 = u @ CHR ''>'' # v" "CHR ''>'' \<notin> set u"
      by (auto dest: split_list_first)
    with eq2 have "u @ CHR ''>'' # (v @ ''<w:t'' @ A @ CHR ''>'' # (e @ ''</w:t>'' @ r')) =
      A2 @ CHR ''>'' # (x2 @ ''</w:t>'' @ r2)"
      by simp
    from first_occurrence_unique [OF this uv(2) gtA2]
    have u: "u = A2" and eq3: "v @ CHR ''<'' # (''w:t'' @ A @ CHR ''>'' # (e @ ''</w:t>'' @ r')) =
      x2 @ CHR ''<'' # (''/w:t>'' @ r2)"
      by simp_all
    show ?thesis
    proof (cases "CHR ''<'' \<in> set v")
      case True
      then obtain v1 v2 where v: "v = v1 @ CHR ''<'' # v2" "CHR ''<'' \<notin> set v1"
        by (auto dest: split_list_first)
      with eq3 have "v1 @ CHR ''<'' # (v2 @ CHR ''<'' # (''w:t'' @ A @ CHR ''>'' # (e @ ''</w:t>'' @ r'))) =
        x2 @ CHR ''<'' # (''/w:t>'' @ r2)"
        by simp
      from first_occurrence_unique [OF this v(2) x2]
      have v1: "v1 = x2" and "''</w:t>'' @ r2 =
          (CHR ''<'' # v2) @ CHR ''<'' # (''w:t'' @ A @ CHR ''>'' # (e @ ''</w:t>'' @ r'))"
        by simp_all
      from prefix_window [OF this(2)] obtain b' where "CHR ''<'' # v2 = ''</w:t>'' @ b'"
        by auto
      with g1 uv u v v1 have "g = run_element a2 x2 @ b'"
        by (simp add: run_element_def A2_def)
      then have eq5: "g @ run_element a x @ r = run_element a2 x2 @ (b' @ run_element a x @ r)"
        by simp
      show ?thesis unfolding eq5 by (simp add: match_text_at_intro [OF a2 x2])
    next
      case False
      from first_occurrence_unique [OF eq3 False x2] show ?thesis by simp
    qed
  next
    case False
    with gtA have nogt: "CHR ''>'' \<notin> set (g1 @ ''<w:t'' @ A)" by simp
    from eq2 have eq4: "(g1 @ ''<w:t'' @ A) @ CHR ''>'' # (e @ ''</w:t>'' @ r') =
      A2 @ CHR ''>'' # (x2 @ ''</w:t>'' @ r2)"
      by simp
    have "g1 @ ''<w:t'' @ A = A2"
      by (rule first_occurrence_unique [OF eq4 nogt gtA2, THEN conjunct1])
    with g1 have eq5: "g @ run_element a x @ r = run_element a2 x @ r"
      by (simp add: run_element_def A_def A2_def)
    show ?thesis unfolding eq5 by (simp add: match_text_at_intro [OF a2 x])
  qed
qed

lemma regexp_exec_at_Some: "at s = Some (m, r) \<Longrightarrow> regexp_exec at s = Some ([], m, r)"
  by (cases s) auto

lemma exec_text_SomeD:
  "regexp_exec match_text_at s = Some (pre, (w, a, x), rest) \<Longrightarrow>
   valid_attrs a \<and> CHR ''<'' \<notin> set x \<and> w = run_element a x \<and> s = pre @ w @ rest"
proof (induction s arbitrary: pre)
  case Nil
  then show ?case by (auto split: option.splits dest: match_text_at_SomeD)
next
  case (Cons c cs)
  show ?case
  proof (cases "match_text_at (c # cs)")
    case None
    with Cons.prems obtain pre' where "regexp_exec match_text_at cs = Some (pre', (w, a, x), rest)"
      and "pre = c # pre'"
      by (auto split: option.splits)
    with Cons.IH [of pre'] show ?thesis by simp
  next
    case (Some b)
    with Cons.prems have "match_text_at (c # cs) = Some ((w, a, x), rest)" and "pre = []"
      by (auto split: prod.splits)
    with match_text_at_SomeD [of "c # cs" w a x rest] show ?thesis by simp
  qed
qed

lemma exec_text_rewrite:
  "regexp_exec match_text_at s = Some (pre, (w, a, x), rest) \<Longrightarrow> CHR ''<'' \<notin> set e \<Longrightarrow>
   regexp_exec match_text_at (pre @ run_element a e @ rest') = Some (pre, (run_element a e, a, e), rest')"
proof (induction s arbitrary: pre)
  case Nil
  then show ?case by (auto split: option.splits dest: match_text_at_SomeD simp: run_element_def)
next
  case (Cons c cs)
  from exec_text_SomeD [OF Cons.prems(1)]
  have a: "valid_attrs a" and x: "CHR ''<'' \<notin> set x" and w: "w = run_element a x"
    and s: "c # cs = pre @ w @ rest"
    by simp_all
  show ?case
  proof (cases "match_text_at (c # cs)")
    case None
    with Cons.prems obtain pre' where ex: "regexp_exec match_text_at cs = Some (pre', (w, a, x), rest)"
      and pre: "pre = c # pre'"
      by (auto split: option.splits)
    have "match_text_at (pre @ run_element a e @ rest') = None"
    proof (rule ccontr)
      assume "match_text_at (pre @ run_element a e @ rest') \<noteq> None"
      then obtain m r2 where "match_text_at (pre @ run_element a e @ rest') = Some (m, r2)"
        by auto
      from match_text_at_gap [OF _ a x this, of rest] pre
      have "match_text_at (pre @ run_element a x @ rest) \<noteq> None" by simp
      with None s w show False by simp
    qed
    with Cons.IH [OF ex Cons.prems(2)] pre show ?thesis by simp
  next
    case (Some b)
    with Cons.prems have "pre = []"
      by (auto split: prod.splits)
    with match_text_at_intro [OF a Cons.prems(2), of rest'] show ?thesis
      by (simp add: regexp_exec_at_Some)
  qed
qed

lemma text_replace_unfold:
  "text_replace f s st =
     (case regexp_exec match_text_at s of
        None \<Rightarrow> s
      | Some (pre, m, rest) \<Rightarrow> (case f st m of (out, st') \<Rightarrow> pre @ out @ text_replace f rest st'))"
  by (subst text_replace.simps) (auto split: option.splits)

lemma rewrite_run_False: "rewrite_run t False (w, a, x) = (run_element a [], False)"
  by (simp add: rewrite_run_def run_element_def)

lemma rewrite_run_True: "rewrite_run t True (w, a, x) = (run_element a (escapeXml t), False)"
  by (simp add: rewrite_run_def run_element_def)

lemma text_runs_rewrite_False:
  "text_runs (text_replace (rewrite_run t) s False) = map emptied (text_runs s)"
proof (induction "length s" arbitrary: s rule: less_induct)
  case less
  show ?case
  proof (cases "regexp_exec match_text_at s")
    case None
    then show ?thesis
      by (simp add: text_replace_unfold [of _ s] text_runs_unfold [of s])
  next
    case (Some b)
    then obtain pre w a x rest where ex: "regexp_exec match_text_at s = Some (pre, (w, a, x), rest)"
      by (cases b) auto
    define R where "R = text_replace (rewrite_run t) rest False"
    from ex have 1: "text_replace (rewrite_run t) s False = pre @ run_element a [] @ R"
      by (simp add: text_replace_unfold [of _ s] rewrite_run_False R_def)
    from exec_text_rewrite [OF ex, of "[]" R]
    have 2: "text_runs (pre @ run_element a [] @ R) = (run_element a [], a, []) # text_runs R"
      by (simp add: text_runs_unfold [of "pre @ run_element a [] @ R"])
    from exec_text_shorter [OF ex] have "text_runs R = map emptied (text_runs rest)"
      unfolding R_def by (rule less)
    with 1 2 ex show ?thesis
      by (simp add: text_runs_unfold [of s] emptied_def)
  qed
qed

lemma replace_char_set:
  "c' \<notin> set rep \<Longrightarrow> c' \<in> set (replace_char c rep s) \<longleftrightarrow> c' \<in> set s \<and> c' \<noteq> c"
  by (induction s) (auto simp: replace_char_def)

lemma escapeXml_no_lt: "CHR ''<'' \<notin> set (escapeXml t)"
  by (simp add: escapeXml_def replace_char_set)

lemma text_runs_rewrite_True:
  "text_runs (text_replace (rewrite_run t) s True) =
     (case text_runs s of
        [] \<Rightarrow> []
      | (w, a, x) # ms \<Rightarrow> (run_element a (escapeXml t), a, escapeXml t) # map emptied ms)"
proof (cases "regexp_exec match_text_at s")
  case None
  then show ?thesis
    by (simp add: text_replace_unfold [of _ s] text_runs_unfold [of s])
next
  case (Some b)
  then obtain pre w a x rest where ex: "regexp_exec match_text_at s = Some (pre, (w, a, x), rest)"
    by (cases b) auto
  define R where "R = text_replace (rewrite_run t) rest False"
  from ex have 1: "text_replace (rewrite_run t) s True = pre @ run_element a (escapeXml t) @ R"
    by (simp add: text_replace_unfold [of _ s] rewrite_run_True R_def)
  from exec_text_rewrite [OF ex escapeXml_no_lt, of t R]
  have 2: "text_runs (pre @ run_element a (escapeXml t) @ R) =
      (run_element a (escapeXml t), a, escapeXml t) # text_runs R"
    by (simp add: text_runs_unfold [of "pre @ run_element a (escapeXml t) @ R"])
  have "text_runs R = map emptied (text_runs rest)"
    unfolding R_def by (rule text_runs_rewrite_False)
  with 1 2 ex show ?thesis
    by (simp add: text_runs_unfold [of s])
qed

lemma text_runs_free:
  "m \<in> set (text_runs s) \<Longrightarrow> CHR ''<'' \<notin> set (snd (snd m))"
proof (induction "length s" arbitrary: s rule: less_induct)
  case less
  show ?case
  proof (cases "regexp_exec match_text_at s")
    case None
    with less.prems show ?thesis by (simp add: text_runs_unfold [of s])
  next
    case (Some b)
    then obtain pre w a x rest where ex: "regexp_exec match_text_at s = Some (pre, (w, a, x), rest)"
      by (cases b) auto
    with less.prems have "m = (w, a, x) \<or> m \<in> set (text_runs rest)"
      by (auto simp: text_runs_unfold [of s])
    then show ?thesis
    proof
      assume "m = (w, a, x)"
      with exec_text_SomeD [OF ex] show ?thesis by simp
    next
      assume "m \<in> set (text_runs rest)"
      with exec_text_shorter [OF ex] show ?thesis by (rule less.hyps)
    qed
  qed
qed

lemma reconstructed_text_free: "CHR ''<'' \<notin> set (reconstructed_text c)"
  by (auto simp: reconstructed_text_def inject_texts_runs join_empty dest: text_runs_free)

lemma markup_run_not_matched:
  assumes attrs: "CHR ''>'' \<notin> set attrs" and inner: "CHR ''<'' \<in> set inner"
    and free: "\<not> sublist ''</w:t>'' inner"
  shows "match_text_at (''<w:t'' @ attrs @ ''>'' @ inner @ ''</w:t>'' @ rest) = None"
proof (rule ccontr)
  assume "match_text_at (''<w:t'' @ attrs @ ''>'' @ inner @ ''</w:t>'' @ rest) \<noteq> None"
  then obtain w a x r where
    "match_text_at (''<w:t'' @ attrs @ ''>'' @ inner @ ''</w:t>'' @ rest) = Some ((w, a, x), r)"
    by auto
  from match_text_at_SomeD [OF this]
  have a: "valid_attrs a" and x: "CHR ''<'' \<notin> set x"
    and eq: "''<w:t'' @ attrs @ ''>'' @ inner @ ''</w:t>'' @ rest = run_element a x @ r"
    by simp_all
  from eq have "attrs @ CHR ''>'' # (inner @ ''</w:t>'' @ rest) =
      or_empty a @ CHR ''>'' # (x @ ''</w:t>'' @ r)"
    by (simp add: run_element_def)
  from first_occurrence_unique [OF this attrs or_empty_no_gt [OF a]]
  have eq2: "inner @ ''</w:t>'' @ rest = x @ ''</w:t>'' @ r" by simp
  from inner obtain i1 i2 where i: "inner = i1 @ CHR ''<'' # i2" "CHR ''<'' \<notin> set i1"
    by (auto dest: split_list_first)
  with eq2 have "i1 @ CHR ''<'' # (i2 @ ''</w:t>'' @ rest) = x @ CHR ''<'' # (''/w:t>'' @ r)"
    by simp
  from first_occurrence_unique [OF this i(2) x]
  have "''</w:t>'' @ r = (CHR ''<'' # i2) @ CHR ''<'' # (''/w:t>'' @ rest)"
    by simp
  from prefix_window [OF this] obtain b' where "CHR ''<'' # i2 = ''</w:t>'' @ b'"
    by auto
  with i have "inner = i1 @ ''</w:t>'' @ b'" by simp
  then have "sublist ''</w:t>'' inner" by (metis sublist_appendI)
  with free show False by contradiction
qed

text \<open>A text-run element with markup inside and no run opening in it hides from the run rule.\<close>

lemma match_text_at_extend:
  assumes "match_text_at s = Some (m, r)"
  shows "match_text_at (s @ t) = Some (m, r @ t)"
proof -
  obtain w a x where m: "m = (w, a, x)" by (cases m) auto
  from match_text_at_SomeD [OF assms [unfolded m]]
  have "valid_attrs a" "CHR ''<'' \<notin> set x" "w = run_element a x" "s = w @ r" by simp_all
  with match_text_at_intro [of a x "r @ t"] m show ?thesis by simp
qed

lemma closing_tag_mismatch:
  assumes eq: "inner @ ''</w:t>'' @ rest = x @ ''</w:t>'' @ r"
    and inner: "CHR ''<'' \<in> set inner" and x: "CHR ''<'' \<notin> set x"
    and free: "\<not> sublist ''</w:t>'' inner"
  shows False
proof -
  from inner obtain i1 i2 where i: "inner = i1 @ CHR ''<'' # i2" "CHR ''<'' \<notin> set i1"
    by (auto dest: split_list_first)
  with eq have "i1 @ CHR ''<'' # (i2 @ ''</w:t>'' @ rest) = x @ CHR ''<'' # (''/w:t>'' @ r)"
    by simp
  from first_occurrence_unique [OF this i(2) x]
  have "''</w:t>'' @ r = (CHR ''<'' # i2) @ CHR ''<'' # (''/w:t>'' @ rest)"
    by simp
  from prefix_window [OF this] obtain b' where "CHR ''<'' # i2 = ''</w:t>'' @ b'"
    by auto
  with i have "inner = i1 @ ''</w:t>'' @ b'" by simp
  then have "sublist ''</w:t>'' inner" by (metis sublist_appendI)
  with free show False by contradiction
qed

lemma single_lt:
  "u @ CHR ''<'' # v = x @ ''</w:t>'' \<Longrightarrow> CHR ''<'' \<notin> set x \<Longrightarrow> u = x \<and> v = ''/w:t>''"
proof (induction x arbitrary: u)
  case Nil
  show ?case
  proof (cases u)
    case Nil
    with Nil.prems show ?thesis by simp
  next
    case (Cons c u')
    with Nil.prems have "''/w:t>'' = u' @ CHR ''<'' # v" by simp
    then have "CHR ''<'' \<in> set ''/w:t>''" by (simp only: in_set_conv_decomp) blast
    then show ?thesis by simp
  qed
next
  case (Cons c xs)
  show ?case
  proof (cases u)
    case Nil
    with Cons.prems show ?thesis by simp
  next
    case (Cons d u')
    with Cons.prems Cons.IH [of u'] show ?thesis by simp
  qed
qed

lemma run_crosses_element:
  assumes a: "valid_attrs a" and inner: "CHR ''<'' \<in> set inner"
    and free: "\<not> sublist ''</w:t>'' inner"
    and a': "valid_attrs a'" and x': "CHR ''<'' \<notin> set x'"
    and eq: "s @ w = run_element a' x'" and w: "w \<noteq> []"
    and pre: "run_element a inner @ post = w @ r"
  shows False
proof -
  define A where "A = or_empty a"
  define A' where "A' = or_empty a'"
  from a a' have gt: "CHR ''>'' \<notin> set A" "CHR ''>'' \<notin> set A'"
    by (simp_all add: A_def A'_def or_empty_no_gt)
  from pre w obtain w' where w': "w = CHR ''<'' # w'"
    by (cases w) (auto simp: run_element_def)
  with pre have E: "''w:t'' @ A @ ''>'' @ inner @ ''</w:t>'' @ post = w' @ r"
    by (simp add: run_element_def A_def)
  from eq w' have M: "s @ CHR ''<'' # w' = (''<w:t'' @ A') @ CHR ''>'' # (x' @ ''</w:t>'')"
    by (simp add: run_element_def A'_def)
  then obtain us where
    "s = (''<w:t'' @ A') @ us \<and> us @ CHR ''<'' # w' = CHR ''>'' # (x' @ ''</w:t>'') \<or>
     s @ us = ''<w:t'' @ A' \<and> CHR ''<'' # w' = us @ CHR ''>'' # (x' @ ''</w:t>'')"
    unfolding append_eq_append_conv2 by blast
  then show False
  proof
    assume c: "s = (''<w:t'' @ A') @ us \<and> us @ CHR ''<'' # w' = CHR ''>'' # (x' @ ''</w:t>'')"
    then obtain us' where "us = CHR ''>'' # us'" by (cases us) auto
    with c have "us' @ CHR ''<'' # w' = x' @ ''</w:t>''" by simp
    from single_lt [OF this x'] have "w' = ''/w:t>''" by simp
    with E show False by simp
  next
    assume c: "s @ us = ''<w:t'' @ A' \<and> CHR ''<'' # w' = us @ CHR ''>'' # (x' @ ''</w:t>'')"
    then obtain us' where us: "us = CHR ''<'' # us'" by (cases us) auto
    with c have w'': "w' = us' @ CHR ''>'' # (x' @ ''</w:t>'')" by simp
    from c us have "''<w:t'' @ A' = s @ CHR ''<'' # us'" by simp
    then have "set us' \<subseteq> set (''<w:t'' @ A')" by (simp only:) auto
    moreover from gt(2) have "CHR ''>'' \<notin> set (''<w:t'' @ A')" by simp
    ultimately have 1: "CHR ''>'' \<notin> set us'" by blast
    from E w'' have 2: "(''w:t'' @ A) @ CHR ''>'' # (inner @ ''</w:t>'' @ post) =
        us' @ CHR ''>'' # (x' @ ''</w:t>'' @ r)"
      by simp
    from gt(1) have 3: "CHR ''>'' \<notin> set (''w:t'' @ A)" by simp
    from first_occurrence_unique [OF 2 3 1]
    have "inner @ ''</w:t>'' @ post = x' @ ''</w:t>'' @ r" by simp
    then show False using inner x' free by (rule closing_tag_mismatch)
  qed
qed

lemma match_text_at_before_element:
  assumes a: "valid_attrs a" and inner: "CHR ''<'' \<in> set inner"
    and free: "\<not> sublist ''</w:t>'' inner"
    and some: "match_text_at (s @ run_element a inner @ post) = Some (m, r)"
  shows "\<exists>r0. match_text_at s = Some (m, r0) \<and> r = r0 @ run_element a inner @ post"
proof -
  obtain w a' x' where m: "m = (w, a', x')" by (cases m) auto
  from match_text_at_SomeD [OF some [unfolded m]]
  have a': "valid_attrs a'" and x': "CHR ''<'' \<notin> set x'" and w: "w = run_element a' x'"
    and eq: "s @ run_element a inner @ post = w @ r"
    by simp_all
  from eq obtain us where
    "s = w @ us \<and> us @ run_element a inner @ post = r \<or>
     s @ us = w \<and> run_element a inner @ post = us @ r"
    unfolding append_eq_append_conv2 by blast
  then show ?thesis
  proof
    assume c: "s = w @ us \<and> us @ run_element a inner @ post = r"
    with match_text_at_intro [OF a' x', of us] w m show ?thesis by simp
  next
    assume c: "s @ us = w \<and> run_element a inner @ post = us @ r"
    show ?thesis
    proof (cases "us = []")
      case True
      with c match_text_at_intro [OF a' x', of "[]"] w m show ?thesis by simp
    next
      case False
      from c w have "s @ us = run_element a' x'" "run_element a inner @ post = us @ r" by simp_all
      from run_crosses_element [OF a inner free a' x' this(1) False this(2)]
      show ?thesis ..
    qed
  qed
qed

lemma match_text_at_inside_element:
  assumes a: "valid_attrs a"
    and nested: "\<not> sublist ''<w:t'' (or_empty a @ ''>'' @ inner)"
    and split: "run_element a inner = e1 @ e2" and e1: "e1 \<noteq> []" and e2: "e2 \<noteq> []"
  shows "match_text_at (e2 @ post) = None"
proof (rule ccontr)
  assume "match_text_at (e2 @ post) \<noteq> None"
  then obtain w a' x' r where "match_text_at (e2 @ post) = Some ((w, a', x'), r)" by auto
  from match_text_at_SomeD [OF this]
  have start: "e2 @ post = ''<w:t'' @ (or_empty a' @ ''>'' @ x' @ ''</w:t>'' @ r)"
    by (simp add: run_element_def)
  define X where "X = or_empty a @ ''>'' @ inner"
  from split e1 obtain e1' where e1': "e1 = CHR ''<'' # e1'"
    by (cases e1) (auto simp: run_element_def)
  with split have tail: "e1' @ e2 = (''w:t'' @ X) @ ''</w:t>''"
    by (simp add: run_element_def X_def)
  from start e2 obtain e2' where e2': "e2 = CHR ''<'' # e2'"
    by (cases e2) auto
  from tail obtain us where
    "e1' = (''w:t'' @ X) @ us \<and> us @ e2 = ''</w:t>'' \<or>
     e1' @ us = ''w:t'' @ X \<and> e2 = us @ ''</w:t>''"
    unfolding append_eq_append_conv2 by blast
  then have "\<exists>us. e1' @ us = ''w:t'' @ X \<and> e2 = us @ ''</w:t>''"
  proof
    assume c: "e1' = (''w:t'' @ X) @ us \<and> us @ e2 = ''</w:t>''"
    with e2' have "us @ CHR ''<'' # e2' = [] @ ''</w:t>''" by simp
    from single_lt [OF this] have "us = []" "e2' = ''/w:t>''" by simp_all
    with c e2' show ?thesis by simp
  next
    assume "e1' @ us = ''w:t'' @ X \<and> e2 = us @ ''</w:t>''"
    then show ?thesis by blast
  qed
  then obtain us where us: "e1' @ us = ''w:t'' @ X" "e2 = us @ ''</w:t>''" by blast
  show False
  proof (cases "us = []")
    case True
    with us start show False by simp
  next
    case False
    from start us have "''<w:t'' @ (or_empty a' @ ''>'' @ x' @ ''</w:t>'' @ r) =
        us @ CHR ''<'' # (''/w:t>'' @ post)"
      by simp
    from prefix_window [OF this _ False] obtain b' where "us = ''<w:t'' @ b'" by auto
    with us have "''w:t'' @ X = e1' @ ''<w:t'' @ b'" by simp
    then have "sublist ''<w:t'' (''w:t'' @ X)" by (metis sublist_appendI)
    then have "sublist ''<w:t'' X" by (simp add: sublist_Cons_right)
    with nested show False by (simp add: X_def)
  qed
qed

lemma regexp_exec_skip:
  "(\<And>u1 u2. u = u1 @ u2 \<Longrightarrow> u2 \<noteq> [] \<Longrightarrow> at (u2 @ v) = None) \<Longrightarrow>
   regexp_exec at (u @ v) =
     (case regexp_exec at v of
        None \<Rightarrow> None
      | Some (p, m, r) \<Rightarrow> Some (u @ p, m, r))"
proof (induction u)
  case Nil
  then show ?case by (simp split: option.splits)
next
  case (Cons c u)
  from Cons.prems [of "[]" "c # u"] have "at (c # u @ v) = None" by simp
  moreover have "regexp_exec at (u @ v) =
     (case regexp_exec at v of
        None \<Rightarrow> None
      | Some (p, m, r) \<Rightarrow> Some (u @ p, m, r))"
  proof (rule Cons.IH)
    fix u1 u2 assume "u = u1 @ u2" "u2 \<noteq> []"
    with Cons.prems [of "c # u1" u2] show "at (u2 @ v) = None" by simp
  qed
  ultimately show ?case by (simp split: option.splits)
qed

lemma exec_text_markup_element:
  assumes a: "valid_attrs a" and inner: "CHR ''<'' \<in> set inner"
    and free: "\<not> sublist ''</w:t>'' inner"
    and nested: "\<not> sublist ''<w:t'' (or_empty a @ ''>'' @ inner)"
  shows "regexp_exec match_text_at (s @ run_element a inner @ post) =
     (case regexp_exec match_text_at s of
        Some (p, m, r0) \<Rightarrow> Some (p, m, r0 @ run_element a inner @ post)
      | None \<Rightarrow>
          (case regexp_exec match_text_at post of
             None \<Rightarrow> None
           | Some (p, m, r) \<Rightarrow> Some (s @ run_element a inner @ p, m, r)))"
proof (induction s)
  case Nil
  have "match_text_at (e2 @ post) = None" if "run_element a inner = e1 @ e2" "e2 \<noteq> []" for e1 e2
  proof (cases "e1 = []")
    case True
    show ?thesis
    proof (rule ccontr)
      assume n: "match_text_at (e2 @ post) \<noteq> None"
      from that(1) True have "e2 = run_element a inner" by simp
      with n obtain m r where "match_text_at ([] @ run_element a inner @ post) = Some (m, r)"
        by auto
      from match_text_at_before_element [OF a inner free this]
      show False by (simp add: match_text_at_def)
    qed
  next
    case False
    from match_text_at_inside_element [OF a nested that(1) False that(2)] show ?thesis .
  qed
  then have "regexp_exec match_text_at (run_element a inner @ post) =
     (case regexp_exec match_text_at post of
        None \<Rightarrow> None
      | Some (p, m, r) \<Rightarrow> Some (run_element a inner @ p, m, r))"
    by (rule regexp_exec_skip)
  moreover have "match_text_at [] = None" by (simp add: match_text_at_def)
  ultimately show ?case by (simp split: option.splits)
next
  case (Cons c s)
  show ?case
  proof (cases "match_text_at (c # s @ run_element a inner @ post)")
    case None
    have "match_text_at (c # s) = None"
    proof (rule ccontr)
      assume "match_text_at (c # s) \<noteq> None"
      then obtain m r where "match_text_at (c # s) = Some (m, r)" by auto
      from match_text_at_extend [OF this, of "run_element a inner @ post"] None
      show False by simp
    qed
    with None Cons.IH show ?thesis
      by (simp split: option.splits)
  next
    case (Some b)
    then obtain m r where "match_text_at ((c # s) @ run_element a inner @ post) = Some (m, r)"
      by (cases b) auto
    from match_text_at_before_element [OF a inner free this] this
    show ?thesis by auto
  qed
qed

lemma text_runs_markup_element:
  assumes a: "valid_attrs a" and inner: "CHR ''<'' \<in> set inner"
    and free: "\<not> sublist ''</w:t>'' inner"
    and nested: "\<not> sublist ''<w:t'' (or_empty a @ ''>'' @ inner)"
  shows "text_runs (pre @ run_element a inner @ post) = text_runs pre @ text_runs post"
proof (induction "length pre" arbitrary: pre rule: less_induct)
  case less
  note ex = exec_text_markup_element [OF a inner free nested, of pre post]
  show ?case
  proof (cases "regexp_exec match_text_at pre")
    case None
    with ex show ?thesis
      by (simp add: text_runs_unfold [of "pre @ run_element a inner @ post"]
          text_runs_unfold [of pre] text_runs_unfold [of post] split: option.splits)
  next
    case (Some b)
    then obtain p m r0 where b: "regexp_exec match_text_at pre = Some (p, m, r0)"
      by (cases b) auto
    from exec_text_shorter [OF b] have "length r0 < length pre" .
    then have "text_runs (r0 @ run_element a inner @ post) = text_runs r0 @ text_runs post"
      by (rule less.hyps)
    with ex b show ?thesis
      by (simp add: text_runs_unfold [of "pre @ run_element a inner @ post"]
          text_runs_unfold [of pre])
  qed
qed

lemma text_runs_flat:
  "m \<in> set (text_runs s) \<Longrightarrow>
   valid_attrs (fst (snd m)) \<and> CHR ''<'' \<notin> set (snd (snd m)) \<and>
   fst m = run_element (fst (snd m)) (snd (snd m))"
proof (induction "length s" arbitrary: s rule: less_induct)
  case less
  show ?case
  proof (cases "regexp_exec match_text_at s")
    case None
    with less.prems show ?thesis by (simp add: text_runs_unfold [of s])
  next
    case (Some b)
    then obtain pre w a x rest where ex: "regexp_exec match_text_at s = Some (pre, (w, a, x), rest)"
      by (cases b) auto
    with less.prems have "m = (w, a, x) \<or> m \<in> set (text_runs rest)"
      by (auto simp: text_runs_unfold [of s])
    then show ?thesis
    proof
      assume "m = (w, a, x)"
      with exec_text_SomeD [OF ex] show ?thesis by simp
    next
      assume "m \<in> set (text_runs rest)"
      with exec_text_shorter [OF ex] show ?thesis by (rule less.hyps)
    qed
  qed
qed

lemma markup_element_not_a_run:
  assumes m: "m \<in> set (text_runs s)" and attrs: "CHR ''>'' \<notin> set attrs"
    and inner: "CHR ''<'' \<in> set inner"
  shows "fst m \<noteq> ''<w:t'' @ attrs @ ''>'' @ inner @ ''</w:t>''"
proof
  assume eq: "fst m = ''<w:t'' @ attrs @ ''>'' @ inner @ ''</w:t>''"
  from text_runs_flat [OF m] have a: "valid_attrs (fst (snd m))"
    and x: "CHR ''<'' \<notin> set (snd (snd m))"
    and w: "fst m = run_element (fst (snd m)) (snd (snd m))"
    by simp_all
  from eq w have "or_empty (fst (snd m)) @ CHR ''>'' # (snd (snd m) @ ''</w:t>'') =
      attrs @ CHR ''>'' # (inner @ ''</w:t>'')"
    by (simp add: run_element_def)
  from first_occurrence_unique [OF this or_empty_no_gt [OF a] attrs]
  have "snd (snd m) = inner" by simp
  with x inner show False by simp
qed

lemma segment_runs:
  assumes "i < length (filter kept (paragraph_blocks xml))"
  shows "seg_text (segments (extractParagraphSegments xml source startId) ! i) =
       concat (map (\<lambda>m. snd (snd m)) (text_runs (snd (filter kept (paragraph_blocks xml) ! i))))"
    and "seg_runCount (segments (extractParagraphSegments xml source startId) ! i) =
       length (text_runs (snd (filter kept (paragraph_blocks xml) ! i)))"
  using assms by (simp_all add: segments_nth segment_of_def extract_texts_runs join_empty)

lemma reconstructed_text_runs:
  "reconstructed_text c = concat (map (\<lambda>m. snd (snd m)) (text_runs c))"
  by (simp add: reconstructed_text_def inject_texts_runs join_empty)

section \<open>Lemmas about the paragraph rule\<close>

lemma strip_prefix_prefix: "strip_prefix p s \<noteq> None \<longleftrightarrow> prefix p s"
  by (cases "strip_prefix p s") (auto simp: strip_prefix_Some_iff prefix_def)

lemma lazy_until_sublist: "lazy_until lit s \<noteq> None \<longleftrightarrow> sublist lit s"
proof (induction s)
  case Nil
  then show ?case by (cases lit) (auto split: option.splits)
next
  case (Cons c cs)
  show ?case
  proof (cases "strip_prefix lit (c # cs)")
    case None
    with strip_prefix_prefix [of lit "c # cs"] have "\<not> prefix lit (c # cs)" by simp
    with None Cons show ?thesis
      by (auto simp: sublist_Cons_right split: option.splits)
  next
    case (Some r)
    with strip_prefix_prefix [of lit "c # cs"] have "prefix lit (c # cs)" by simp
    with Some show ?thesis by (auto simp: sublist_Cons_right)
  qed
qed

lemma lazy_until_capture_free:
  "lazy_until lit b = Some (c, r) \<Longrightarrow> lit \<noteq> [] \<Longrightarrow> \<not> sublist lit c"
proof (induction b arbitrary: c)
  case Nil
  then show ?case by (auto split: option.splits)
next
  case (Cons d ds)
  show ?case
  proof (cases "strip_prefix lit (d # ds)")
    case None
    with Cons.prems obtain c' where c': "lazy_until lit ds = Some (c', r)" "c = d # c'"
      by (auto split: option.splits)
    from Cons.IH [OF c'(1) Cons.prems(2)] have "\<not> sublist lit c'" .
    moreover have "\<not> prefix lit (d # c')"
    proof
      assume "prefix lit (d # c')"
      moreover from lazy_until_append [OF c'(1)] have "prefix (d # c') (d # ds)" by simp
      ultimately have "prefix lit (d # ds)" by (rule prefix_order.trans)
      with None strip_prefix_prefix [of lit "d # ds"] show False by simp
    qed
    ultimately show ?thesis using c'(2) by (simp add: sublist_Cons_right)
  next
    case (Some r')
    with Cons.prems show ?thesis by auto
  qed
qed

lemma lazy_until_exact:
  assumes "\<not> sublist lit c" and "lit = h # lit'" and "h \<notin> set lit'"
  shows "lazy_until lit (c @ lit @ r) = Some (c, r)"
  using assms(1)
proof (induction c)
  case Nil
  with assms(2) show ?case by simp
next
  case (Cons d ds)
  have "strip_prefix lit (d # ds @ lit @ r) = None"
  proof (rule ccontr)
    assume "strip_prefix lit (d # ds @ lit @ r) \<noteq> None"
    then have "prefix lit (d # ds @ lit @ r)" by (simp only: strip_prefix_prefix)
    then obtain r' where "d # ds @ lit @ r = lit @ r'" by (auto simp: prefix_def)
    with assms(2) have "lit @ r' = (d # ds) @ h # (lit' @ r)" by simp
    from prefix_window [OF this] assms(2,3) obtain b' where "d # ds = lit @ b'" by auto
    then have "sublist lit (d # ds)" by (metis sublist_append_rightI)
    with Cons.prems show False by simp
  qed
  moreover from Cons.prems have "\<not> sublist lit ds" by (simp add: sublist_Cons_right)
  ultimately show ?case using Cons.IH by simp
qed

lemma sublist_cut_head:
  assumes "lit = c # lit'" and "c \<notin> set lit'"
  shows "sublist lit (u @ c # v) \<longleftrightarrow> sublist lit u \<or> sublist lit (c # v)"
proof
  assume "sublist lit (u @ c # v)"
  then obtain p q where "u @ c # v = p @ lit @ q" by (auto simp: sublist_def)
  then obtain us where "u = p @ us \<and> us @ c # v = lit @ q \<or> u @ us = p \<and> c # v = us @ lit @ q"
    by (auto simp: append_eq_append_conv2)
  then show "sublist lit u \<or> sublist lit (c # v)"
  proof
    assume a: "u = p @ us \<and> us @ c # v = lit @ q"
    show ?thesis
    proof (cases "us = []")
      case True
      with a have "c # v = lit @ q" by simp
      then show ?thesis by (metis sublist_append_rightI)
    next
      case False
      from a have "lit @ q = us @ c # v" by simp
      from prefix_window [OF this _ False] assms obtain b' where "us = lit @ b'" by auto
      with a have "u = p @ lit @ b'" by simp
      then show ?thesis by (metis sublist_appendI)
    qed
  next
    assume "u @ us = p \<and> c # v = us @ lit @ q"
    then show ?thesis by (metis sublist_appendI)
  qed
next
  assume "sublist lit u \<or> sublist lit (c # v)"
  then show "sublist lit (u @ c # v)"
    by (metis sublist_append sublist_order.order.trans sublist_append_leftI sublist_append_rightI)
qed

lemma sublist_cut_last:
  assumes "lit = lit' @ [c]" and "c \<notin> set lit'"
  shows "sublist lit (u @ c # v) \<longleftrightarrow> sublist lit (u @ [c]) \<or> sublist lit v"
proof -
  have "sublist lit (u @ c # v) \<longleftrightarrow> sublist (rev lit) (rev v @ c # rev u)"
    by (metis sublist_rev rev_append rev.simps(2) append_assoc append_Cons append_Nil)
  also have "\<dots> \<longleftrightarrow> sublist (rev lit) (rev v) \<or> sublist (rev lit) (c # rev u)"
    using assms by (intro sublist_cut_head [of _ _ "rev lit'"]) auto
  also have "\<dots> \<longleftrightarrow> sublist lit v \<or> sublist lit (u @ [c])"
    by (metis sublist_rev rev_append rev.simps append_Cons append_Nil)
  finally show ?thesis by blast
qed

lemma match_paragraph_at_SomeD:
  assumes "match_paragraph_at s = Some ((f, c), r)"
  shows "\<not> sublist ''</w:p>'' c \<and> s = f @ r \<and> (\<exists>T. f = ''<w:p'' @ T @ ''>'' @ c @ ''</w:p>'')"
proof -
  from assms obtain r1 g b where
    1: "strip_prefix ''<w:p'' s = Some r1" and 2: "dropWhile not_gt r1 = g # b"
    and 3: "lazy_until ''</w:p>'' b = Some (c, r)"
    and 4: "f = ''<w:p'' @ takeWhile not_gt r1 @ ''>'' @ c @ ''</w:p>''"
    by (auto simp: match_paragraph_at_def split: option.splits prod.splits list.splits if_splits)
  from lazy_until_capture_free [OF 3] have "\<not> sublist ''</w:p>'' c" by simp
  moreover from match_paragraph_at_append [OF assms] have "s = f @ r" by simp
  ultimately show ?thesis using 4 by blast
qed

lemma match_paragraph_at_intro:
  assumes "CHR ''>'' \<notin> set T" and "T = [] \<or> \<not> is_word_char (hd T)" and "\<not> sublist ''</w:p>'' c"
  shows "match_paragraph_at (''<w:p'' @ T @ ''>'' @ c @ ''</w:p>'' @ r) =
           Some ((''<w:p'' @ T @ ''>'' @ c @ ''</w:p>'', c), r)"
proof -
  have "\<not> is_word_char (CHR ''>'')" by (simp add: is_word_char_def)
  with assms(2) have b: "\<not> (case T @ ''>'' @ c @ ''</w:p>'' @ r of [] \<Rightarrow> False | d # ds \<Rightarrow> is_word_char d)"
    by (cases T) auto
  from assms(1) have tw: "takeWhile not_gt (T @ ''>'' @ c @ ''</w:p>'' @ r) = T"
    and dw: "dropWhile not_gt (T @ ''>'' @ c @ ''</w:p>'' @ r) = ''>'' @ c @ ''</w:p>'' @ r"
    by simp_all
  from lazy_until_exact [OF assms(3), of "CHR ''<''" "''/w:p>''" r]
  have lu: "lazy_until ''</w:p>'' (c @ ''</w:p>'' @ r) = Some (c, r)" by simp
  have "strip_prefix ''<w:p'' (''<w:p'' @ T @ ''>'' @ c @ ''</w:p>'' @ r) = Some (T @ ''>'' @ c @ ''</w:p>'' @ r)"
    by (rule strip_prefix_append)
  then show ?thesis
    unfolding match_paragraph_at_def using b tw dw lu
    by simp
qed

lemma regexp_exec_at:
  "regexp_exec at s = Some (pre, m, rest) \<Longrightarrow> \<exists>s'. at s' = Some (m, rest) \<and> s = pre @ s'"
proof (induction s arbitrary: pre)
  case Nil
  then show ?case by (auto split: option.splits)
next
  case (Cons c cs)
  then show ?case by (fastforce split: option.splits)
qed

lemma paragraph_blocks_free:
  "(f, c) \<in> set (paragraph_blocks s) \<Longrightarrow> \<not> sublist ''</w:p>'' c"
proof (induction "length s" arbitrary: s rule: less_induct)
  case less
  show ?case
  proof (cases "regexp_exec match_paragraph_at s")
    case None
    with less.prems show ?thesis by (simp add: paragraph_blocks_unfold [of s])
  next
    case (Some a)
    then obtain pre m rest where a: "regexp_exec match_paragraph_at s = Some (pre, m, rest)"
      by (cases a) auto
    with less.prems have "(f, c) = m \<or> (f, c) \<in> set (paragraph_blocks rest)"
      by (auto simp: paragraph_blocks_unfold [of s])
    then show ?thesis
    proof
      assume "(f, c) = m"
      with regexp_exec_at [OF a] show ?thesis by (auto dest: match_paragraph_at_SomeD)
    next
      assume "(f, c) \<in> set (paragraph_blocks rest)"
      with exec_paragraph_shorter [OF a] show ?thesis by (rule less.hyps)
    qed
  qed
qed

lemma space_not_word: "is_space_char c \<Longrightarrow> \<not> is_word_char c"
  by (auto simp: is_space_char_def is_word_char_def)

lemma match_open_tag_at_valid: "match_open_tag_at s = Some (a, r) \<Longrightarrow> valid_attrs a"
  by (auto simp: match_open_tag_at_def split: option.splits prod.splits dest: optional_attrs_valid)

lemma open_tag_attrs_valid: "\<exists>a. valid_attrs a \<and> open_tag_attrs f = or_empty a"
proof (cases "regexp_exec match_open_tag_at f")
  case None
  then have "open_tag_attrs f = or_empty None" by (simp add: open_tag_attrs_def)
  moreover have "valid_attrs None" by (simp add: valid_attrs_def)
  ultimately show ?thesis by blast
next
  case (Some b)
  then obtain pre a rest where b: "regexp_exec match_open_tag_at f = Some (pre, a, rest)"
    by (cases b) auto
  from regexp_exec_at [OF b] have "valid_attrs a" by (auto dest: match_open_tag_at_valid)
  moreover from b have "open_tag_attrs f = or_empty a" by (simp add: open_tag_attrs_def)
  ultimately show ?thesis by blast
qed

lemma or_empty_tag: "valid_attrs a \<Longrightarrow> or_empty a = [] \<or> \<not> is_word_char (hd (or_empty a))"
  by (cases a) (auto simp: valid_attrs_def or_empty_def space_not_word)

lemma sublist_close_tag: "sublist ''</w:p>'' (''</w:t>'' @ R) \<longleftrightarrow> sublist ''</w:p>'' R"
  by (simp add: sublist_Cons_right)

lemma sublist_run_element:
  assumes a: "valid_attrs a" and e: "CHR ''<'' \<notin> set e"
  shows "sublist ''</w:p>'' (pre @ run_element a e @ R) \<longleftrightarrow>
         sublist ''</w:p>'' pre \<or> sublist ''</w:p>'' (''<w:t'' @ or_empty a @ ''>'') \<or> sublist ''</w:p>'' R"
proof -
  define A where "A = or_empty a"
  have "sublist ''</w:p>'' (pre @ run_element a e @ R) \<longleftrightarrow>
        sublist ''</w:p>'' (pre @ CHR ''<'' # (''w:t'' @ A @ ''>'' @ e @ ''</w:t>'' @ R))"
    by (simp add: run_element_def A_def)
  also have "\<dots> \<longleftrightarrow> sublist ''</w:p>'' pre \<or>
        sublist ''</w:p>'' (CHR ''<'' # (''w:t'' @ A @ ''>'' @ e @ ''</w:t>'' @ R))"
    by (rule sublist_cut_head [of _ _ "''/w:p>''"]) simp_all
  also have "sublist ''</w:p>'' (CHR ''<'' # (''w:t'' @ A @ ''>'' @ e @ ''</w:t>'' @ R)) \<longleftrightarrow>
        sublist ''</w:p>'' ((''<w:t'' @ A) @ CHR ''>'' # (e @ ''</w:t>'' @ R))"
    by simp
  also have "\<dots> \<longleftrightarrow> sublist ''</w:p>'' ((''<w:t'' @ A) @ ''>'') \<or> sublist ''</w:p>'' (e @ ''</w:t>'' @ R)"
    by (rule sublist_cut_last [of _ "''</w:p''"]) simp_all
  also have "sublist ''</w:p>'' (e @ ''</w:t>'' @ R) \<longleftrightarrow>
        sublist ''</w:p>'' (e @ CHR ''<'' # (''/w:t>'' @ R))"
    by simp
  also have "\<dots> \<longleftrightarrow> sublist ''</w:p>'' e \<or> sublist ''</w:p>'' (CHR ''<'' # (''/w:t>'' @ R))"
    by (rule sublist_cut_head [of _ _ "''/w:p>''"]) simp_all
  also have "sublist ''</w:p>'' (CHR ''<'' # (''/w:t>'' @ R)) \<longleftrightarrow> sublist ''</w:p>'' R"
    using sublist_close_tag [of R] by simp
  also have "sublist ''</w:p>'' e \<longleftrightarrow> False"
    using e by (auto dest: set_mono_sublist)
  finally show ?thesis by (simp add: A_def)
qed

lemma sublist_text_replace:
  "\<not> sublist ''</w:p>'' s \<Longrightarrow> \<not> sublist ''</w:p>'' (text_replace (rewrite_run t) s b)"
proof (induction "length s" arbitrary: s b rule: less_induct)
  case less
  show ?case
  proof (cases "regexp_exec match_text_at s")
    case None
    with less.prems show ?thesis by (simp add: text_replace_unfold [of _ s])
  next
    case (Some m)
    then obtain pre w a x rest where ex: "regexp_exec match_text_at s = Some (pre, (w, a, x), rest)"
      by (cases m) auto
    from exec_text_SomeD [OF ex]
    have a: "valid_attrs a" and x: "CHR ''<'' \<notin> set x" and s: "s = pre @ run_element a x @ rest"
      by simp_all
    from less.prems sublist_run_element [OF a x, of pre rest] s
    have free: "\<not> sublist ''</w:p>'' pre" "\<not> sublist ''</w:p>'' (''<w:t'' @ or_empty a @ ''>'')"
      "\<not> sublist ''</w:p>'' rest"
      by simp_all
    define R where "R = text_replace (rewrite_run t) rest False"
    from exec_text_shorter [OF ex] free(3) have R: "\<not> sublist ''</w:p>'' R"
      unfolding R_def by (rule less.hyps)
    obtain e where e: "CHR ''<'' \<notin> set e"
      and out: "text_replace (rewrite_run t) s b = pre @ run_element a e @ R"
    proof (cases b)
      case True
      with ex have "text_replace (rewrite_run t) s b = pre @ run_element a (escapeXml t) @ R"
        by (simp add: text_replace_unfold [of _ s] rewrite_run_True R_def)
      with escapeXml_no_lt [of t] that show ?thesis by blast
    next
      case False
      with ex have "text_replace (rewrite_run t) s b = pre @ run_element a [] @ R"
        by (simp add: text_replace_unfold [of _ s] rewrite_run_False R_def)
      with that [of "[]"] show ?thesis by simp
    qed
    from free R sublist_run_element [OF a e, of pre R] show ?thesis
      unfolding out by simp
  qed
qed

lemma paragraph_blocks_Nil: "paragraph_blocks [] = []"
  by (simp add: paragraph_blocks_unfold [of "[]"] match_paragraph_at_def)

lemma rewritten_paragraph:
  assumes free: "\<not> sublist ''</w:p>'' c" and key: "translations (reconstructed_text c) = Some t"
  shows "paragraph_blocks (replace_paragraph translations (f, c)) =
           [(replace_paragraph translations (f, c), text_replace (rewrite_run t) c True)]"
proof -
  define c' where "c' = text_replace (rewrite_run t) c True"
  obtain a where a: "valid_attrs a" "open_tag_attrs f = or_empty a"
    using open_tag_attrs_valid by blast
  define out where "out = ''<w:p'' @ or_empty a @ ''>'' @ c' @ ''</w:p>''"
  from key a have out: "replace_paragraph translations (f, c) = out"
    by (simp add: replace_paragraph_def reconstructed_text_def c'_def out_def)
  from free have "\<not> sublist ''</w:p>'' c'" unfolding c'_def by (rule sublist_text_replace)
  from match_paragraph_at_intro [OF or_empty_no_gt [OF a(1)] or_empty_tag [OF a(1)] this, of "[]"]
  have "match_paragraph_at out = Some ((out, c'), [])"
    by (simp add: out_def)
  then have "regexp_exec match_paragraph_at out = Some ([], (out, c'), [])"
    by (rule regexp_exec_at_Some)
  then have "paragraph_blocks out = [(out, c')]"
    by (simp add: paragraph_blocks_unfold [of out] paragraph_blocks_Nil)
  then show ?thesis
    unfolding out c'_def [symmetric] .
qed

lemma match_paragraph_at_tag:
  assumes "match_paragraph_at s = Some ((f, c), r)"
  shows "\<exists>T. f = ''<w:p'' @ T @ ''>'' @ c @ ''</w:p>'' \<and> CHR ''>'' \<notin> set T \<and>
             (T = [] \<or> \<not> is_word_char (hd T))"
proof -
  from assms obtain r1 where r1: "strip_prefix ''<w:p'' s = Some r1"
    by (cases "strip_prefix ''<w:p'' s") (auto simp: match_paragraph_at_def)
  with assms have 1: "\<not> (case r1 of [] \<Rightarrow> False | d # ds \<Rightarrow> is_word_char d)"
    by (auto simp: match_paragraph_at_def split: if_splits)
  with assms r1 have 4: "f = ''<w:p'' @ takeWhile not_gt r1 @ ''>'' @ c @ ''</w:p>''"
    by (auto simp: match_paragraph_at_def split: option.splits prod.splits list.splits
          simp del: takeWhile.simps)
  from 1 have "takeWhile not_gt r1 = [] \<or> \<not> is_word_char (hd (takeWhile not_gt r1))"
    by (cases r1) auto
  with 4 takeWhile_not_gt_free [of r1] show ?thesis by blast
qed

lemma paragraph_replace_Nil: "paragraph_replace f [] = []"
  by (simp add: paragraph_replace_unfold [of _ "[]"] match_paragraph_at_def)

lemma block_alone:
  assumes "(f, c) \<in> set (paragraph_blocks s)"
  shows "regexp_exec match_paragraph_at f = Some ([], (f, c), [])"
  using assms
proof (induction "length s" arbitrary: s rule: less_induct)
  case less
  show ?case
  proof (cases "regexp_exec match_paragraph_at s")
    case None
    with less.prems show ?thesis by (simp add: paragraph_blocks_unfold [of s])
  next
    case (Some a)
    then obtain pre m rest where a: "regexp_exec match_paragraph_at s = Some (pre, m, rest)"
      by (cases a) auto
    with less.prems have "(f, c) = m \<or> (f, c) \<in> set (paragraph_blocks rest)"
      by (auto simp: paragraph_blocks_unfold [of s])
    then show ?thesis
    proof
      assume m: "(f, c) = m"
      with regexp_exec_at [OF a] obtain s' where s': "match_paragraph_at s' = Some ((f, c), rest)"
        by auto
      from match_paragraph_at_tag [OF s'] obtain T where
        T: "f = ''<w:p'' @ T @ ''>'' @ c @ ''</w:p>''" "CHR ''>'' \<notin> set T"
          "T = [] \<or> \<not> is_word_char (hd T)"
        by blast
      from match_paragraph_at_SomeD [OF s'] have "\<not> sublist ''</w:p>'' c" by simp
      from match_paragraph_at_intro [OF T(2,3) this, of "[]"] T(1)
      have "match_paragraph_at f = Some ((f, c), [])" by simp
      then show ?thesis by (rule regexp_exec_at_Some)
    next
      assume "(f, c) \<in> set (paragraph_blocks rest)"
      with exec_paragraph_shorter [OF a] show ?thesis by (rule less.hyps)
    qed
  qed
qed

lemma replaceParagraphText_block:
  assumes "(f, c) \<in> set (paragraph_blocks s)"
  shows "replaceParagraphText f tr = replace_paragraph tr (f, c)"
  using block_alone [OF assms]
  by (simp add: replaceParagraphText_def paragraph_replace_unfold [of _ f] paragraph_replace_Nil)

lemma replace_char_id: "c \<notin> set s \<Longrightarrow> replace_char c rep s = s"
  by (induction s) (auto simp: replace_char_def)

lemma escapeXml_id:
  "set t \<inter> set [CHR ''&'', CHR ''<'', CHR ''>'', CHR 0x22, CHR 0x27] = {} \<Longrightarrow> escapeXml t = t"
  by (simp add: escapeXml_def replace_char_id)

text \<open>Rewriting one paragraph neither creates nor hides another.\<close>

lemma match_paragraph_at_gap:
  assumes g: "g \<noteq> []"
    and some: "match_paragraph_at (g @ paragraph_text T' c' @ rest') \<noteq> None"
  shows "match_paragraph_at (g @ paragraph_text T c @ rest) \<noteq> None"
proof -
  from some obtain r1' where r1': "strip_prefix ''<w:p'' (g @ paragraph_text T' c' @ rest') = Some r1'"
    and nw': "\<not> (case r1' of [] \<Rightarrow> False | d # ds \<Rightarrow> is_word_char d)"
    by (auto simp: match_paragraph_at_def split: option.splits if_splits)
  from r1' have "''<w:p'' @ r1' = g @ CHR ''<'' # (''w:p'' @ T' @ ''>'' @ c' @ ''</w:p>'' @ rest')"
    by (simp add: strip_prefix_Some_iff paragraph_text_def)
  from prefix_window [OF this _ g] obtain g1 where g1: "g = ''<w:p'' @ g1" by auto
  with r1' have r1'_eq: "r1' = g1 @ paragraph_text T' c' @ rest'"
    by (simp add: strip_prefix_Some_iff)
  define r1 where "r1 = g1 @ paragraph_text T c @ rest"
  from g1 have sp: "strip_prefix ''<w:p'' (g @ paragraph_text T c @ rest) = Some r1"
    by (simp add: strip_prefix_Some_iff r1_def)
  from nw' r1'_eq have nw: "\<not> (case r1 of [] \<Rightarrow> False | d # ds \<Rightarrow> is_word_char d)"
    by (cases g1) (auto simp: r1_def paragraph_text_def is_word_char_def)
  have "sublist ''</w:p>'' (tl (dropWhile not_gt r1))"
  proof (cases "CHR ''>'' \<in> set (g1 @ ''<w:p'' @ T)")
    case True
    from split_list_first [OF True]
    obtain u v where uv: "g1 @ ''<w:p'' @ T = u @ CHR ''>'' # v" "CHR ''>'' \<notin> set u"
      by blast
    then have "r1 = u @ CHR ''>'' # (v @ ''>'' @ c @ ''</w:p>'' @ rest)"
      by (simp add: r1_def paragraph_text_def)
    with uv(2) have "tl (dropWhile not_gt r1) = v @ ''>'' @ c @ ''</w:p>'' @ rest"
      by simp
    then show ?thesis by (metis sublist_appendI append_assoc)
  next
    case False
    have "r1 = (g1 @ ''<w:p'' @ T) @ CHR ''>'' # (c @ ''</w:p>'' @ rest)"
      by (simp add: r1_def paragraph_text_def)
    with False have "tl (dropWhile not_gt r1) = c @ ''</w:p>'' @ rest"
      by (simp del: append_assoc)
    then show ?thesis by (metis sublist_appendI)
  qed
  then have lu: "lazy_until ''</w:p>'' (tl (dropWhile not_gt r1)) \<noteq> None"
    by (simp only: lazy_until_sublist)
  have "CHR ''>'' \<in> set r1" by (simp add: r1_def paragraph_text_def)
  then have "dropWhile not_gt r1 \<noteq> []" by (auto simp: not_gt_def)
  with lu sp nw show ?thesis
    by (cases "dropWhile not_gt r1") (auto simp: match_paragraph_at_def split: option.splits)
qed

lemma exec_paragraph_SomeD:
  assumes "regexp_exec match_paragraph_at s = Some (pre, (f, c), rest)"
  shows "\<exists>T. valid_tag T \<and> f = paragraph_text T c \<and> \<not> sublist ''</w:p>'' c \<and> s = pre @ f @ rest"
proof -
  from regexp_exec_at [OF assms] obtain s' where s': "match_paragraph_at s' = Some ((f, c), rest)"
    by blast
  from match_paragraph_at_tag [OF s'] match_paragraph_at_SomeD [OF s'] exec_paragraph_append [OF assms]
  show ?thesis by (auto simp: valid_tag_def paragraph_text_def)
qed

lemma match_paragraph_at_block:
  "valid_tag T \<Longrightarrow> \<not> sublist ''</w:p>'' c \<Longrightarrow>
   match_paragraph_at (paragraph_text T c @ r) = Some ((paragraph_text T c, c), r)"
  using match_paragraph_at_intro [of T c r] by (simp add: valid_tag_def paragraph_text_def)

lemma exec_paragraph_rewrite:
  "regexp_exec match_paragraph_at s = Some (pre, (f, c), rest) \<Longrightarrow>
   valid_tag T' \<Longrightarrow> \<not> sublist ''</w:p>'' c' \<Longrightarrow>
   regexp_exec match_paragraph_at (pre @ paragraph_text T' c' @ rest') =
     Some (pre, (paragraph_text T' c', c'), rest')"
proof (induction s arbitrary: pre)
  case Nil
  then show ?case by (auto split: option.splits simp: match_paragraph_at_def)
next
  case (Cons d ds)
  from exec_paragraph_SomeD [OF Cons.prems(1)] obtain T where
    T: "f = paragraph_text T c" and s: "d # ds = pre @ f @ rest"
    by blast
  show ?case
  proof (cases "match_paragraph_at (d # ds)")
    case None
    with Cons.prems obtain pre' where ex: "regexp_exec match_paragraph_at ds = Some (pre', (f, c), rest)"
      and pre: "pre = d # pre'"
      by (auto split: option.splits)
    have "match_paragraph_at (pre @ paragraph_text T' c' @ rest') = None"
    proof (rule ccontr)
      assume "match_paragraph_at (pre @ paragraph_text T' c' @ rest') \<noteq> None"
      from match_paragraph_at_gap [OF _ this, of T c rest] pre
      have "match_paragraph_at (pre @ paragraph_text T c @ rest) \<noteq> None" by simp
      with None s T show False by simp
    qed
    with Cons.IH [OF ex Cons.prems(2,3)] pre show ?thesis by simp
  next
    case (Some b)
    with Cons.prems have "pre = []"
      by (auto split: prod.splits)
    with match_paragraph_at_block [OF Cons.prems(2,3), of rest'] show ?thesis
      by (simp add: regexp_exec_at_Some)
  qed
qed

lemma replace_paragraph_shape:
  assumes "valid_tag T" and "\<not> sublist ''</w:p>'' c"
  shows "\<exists>T'. valid_tag T' \<and>
           replace_paragraph tr (paragraph_text T c, c) = paragraph_text T' (rewritten_content tr c) \<and>
           \<not> sublist ''</w:p>'' (rewritten_content tr c)"
proof (cases "tr (reconstructed_text c)")
  case None
  with assms show ?thesis
    by (auto simp: replace_paragraph_no_key rewritten_content_def)
next
  case (Some t)
  obtain a where a: "valid_attrs a" "open_tag_attrs (paragraph_text T c) = or_empty a"
    using open_tag_attrs_valid by blast
  from a(1) have "valid_tag (or_empty a)"
    using or_empty_no_gt or_empty_tag by (auto simp: valid_tag_def)
  moreover from Some a(2) have "replace_paragraph tr (paragraph_text T c, c) =
      paragraph_text (or_empty a) (rewritten_content tr c)"
    by (simp add: replace_paragraph_def reconstructed_text_def rewritten_content_def paragraph_text_def)
  moreover from assms(2) Some have "\<not> sublist ''</w:p>'' (rewritten_content tr c)"
    by (simp add: rewritten_content_def sublist_text_replace)
  ultimately show ?thesis by blast
qed

lemma paragraph_blocks_replace:
  "paragraph_blocks (paragraph_replace (replace_paragraph tr) s) =
     map (\<lambda>m. (replace_paragraph tr m, rewritten_content tr (snd m))) (paragraph_blocks s)"
proof (induction "length s" arbitrary: s rule: less_induct)
  case less
  show ?case
  proof (cases "regexp_exec match_paragraph_at s")
    case None
    then show ?thesis
      by (simp add: paragraph_replace_unfold [of _ s] paragraph_blocks_unfold [of s])
  next
    case (Some a)
    then obtain pre f c rest where ex: "regexp_exec match_paragraph_at s = Some (pre, (f, c), rest)"
      by (cases a) auto
    from exec_paragraph_SomeD [OF ex] obtain T where
      T: "valid_tag T" "f = paragraph_text T c" "\<not> sublist ''</w:p>'' c"
      by blast
    from replace_paragraph_shape [OF T(1,3), of tr] T(2) obtain T' where
      T': "valid_tag T'" "replace_paragraph tr (f, c) = paragraph_text T' (rewritten_content tr c)"
        "\<not> sublist ''</w:p>'' (rewritten_content tr c)"
      by auto
    define R where "R = paragraph_replace (replace_paragraph tr) rest"
    from ex have 1: "paragraph_replace (replace_paragraph tr) s = pre @ replace_paragraph tr (f, c) @ R"
      by (simp add: paragraph_replace_unfold [of _ s] R_def)
    from exec_paragraph_rewrite [OF ex T'(1,3), of R] T'(2)
    have 2: "regexp_exec match_paragraph_at (pre @ replace_paragraph tr (f, c) @ R) =
        Some (pre, (replace_paragraph tr (f, c), rewritten_content tr c), R)"
      by simp
    from exec_paragraph_shorter [OF ex]
    have 3: "paragraph_blocks R =
        map (\<lambda>m. (replace_paragraph tr m, rewritten_content tr (snd m))) (paragraph_blocks rest)"
      unfolding R_def by (rule less)
    from ex have 4: "paragraph_blocks s = (f, c) # paragraph_blocks rest"
      by (simp add: paragraph_blocks_unfold [of s])
    show ?thesis
      unfolding 1 4
      by (subst paragraph_blocks_unfold) (simp add: 2 3)
  qed
qed

lemma second_pass_unchanged:
  assumes "\<And>m t. m \<in> set (paragraph_blocks xml) \<Longrightarrow> tr (reconstructed_text (snd m)) = Some t \<Longrightarrow>
             text_runs (snd m) \<noteq> [] \<and> tr (escapeXml t) = None"
  shows "replaceParagraphText (replaceParagraphText xml tr) tr = replaceParagraphText xml tr"
proof -
  have "paragraph_replace (replace_paragraph tr) (replaceParagraphText xml tr) =
      replaceParagraphText xml tr"
  proof (rule paragraph_replace_id)
  fix m'
  assume "m' \<in> set (paragraph_blocks (replaceParagraphText xml tr))"
  then obtain m where m: "m \<in> set (paragraph_blocks xml)"
    and m': "m' = (replace_paragraph tr m, rewritten_content tr (snd m))"
    by (auto simp: replaceParagraphText_def paragraph_blocks_replace)
  have "tr (reconstructed_text (rewritten_content tr (snd m))) = None"
  proof (cases "tr (reconstructed_text (snd m))")
    case None
    then show ?thesis by (simp add: rewritten_content_def)
  next
    case (Some t)
    from assms [OF m Some] have runs: "text_runs (snd m) \<noteq> []" and t: "tr (escapeXml t) = None"
      by simp_all
    from runs obtain w a x others where "text_runs (snd m) = (w, a, x) # others"
      by (cases "text_runs (snd m)") auto
    then have "text_runs (text_replace (rewrite_run t) (snd m) True) =
        (run_element a (escapeXml t), a, escapeXml t) # map emptied others"
      by (simp add: text_runs_rewrite_True)
    moreover have "concat (map (\<lambda>m. snd (snd m)) (map emptied others)) = []"
      by (induction others) (simp_all add: emptied_def)
    ultimately have "reconstructed_text (text_replace (rewrite_run t) (snd m) True) = escapeXml t"
      by (simp add: reconstructed_text_def inject_texts_runs join_empty)
    with Some t show ?thesis by (simp add: rewritten_content_def)
  qed
  with m' show "replace_paragraph tr m' = fst m'"
    by (simp add: replace_paragraph_no_key)
  qed
  then show ?thesis by (simp add: replaceParagraphText_def)
qed

lemma replaceParagraphText_blocks:
  "paragraph_blocks (replaceParagraphText xml tr) =
     map (\<lambda>m. (replace_paragraph tr m, rewritten_content tr (snd m))) (paragraph_blocks xml)"
  by (simp add: replaceParagraphText_def paragraph_blocks_replace)

section \<open>The deterministic matchers are the backtracking semantics\<close>

lemma backtrack_Chr:
  "backtrack (Chr c) (p, s, caps) = (case s of [] \<Rightarrow> [] | x # xs \<Rightarrow> if x = c then [(Some x, xs, caps)] else [])"
  by (simp add: backtrack.simps)

lemma backtrack_Cls:
  "backtrack (Cls P) (p, s, caps) = (case s of [] \<Rightarrow> [] | x # xs \<Rightarrow> if P x then [(Some x, xs, caps)] else [])"
  by (simp add: backtrack.simps)

lemma backtrack_Star:
  "backtrack (Star a) st =
     concat (map (backtrack (Star a)) (filter (progress st) (backtrack a st))) @ [st]"
  by (rule backtrack.simps)

lemma backtrack_Lazy:
  "backtrack (Lazy a) st =
     st # concat (map (backtrack (Lazy a)) (filter (progress st) (backtrack a st)))"
  by (rule backtrack.simps)

lemma backtrack_Seq: "backtrack (Seq a b) st = concat (map (backtrack b) (backtrack a st))"
  by (rule backtrack.simps)

lemma backtrack_Opt: "backtrack (Opt a) st = filter (progress st) (backtrack a st) @ [st]"
  by (rule backtrack.simps)

lemma backtrack_Grp:
  "backtrack (Grp n a) (p, s, caps) =
     map (\<lambda>st'. case st' of (p', s', caps') \<Rightarrow> (p', s', (n, take (length s - length s') s) # caps'))
       (backtrack a (p, s, caps))"
  by (simp add: backtrack.simps)

lemma backtrack_Str:
  "backtrack (Str lit) (p, s, caps) =
     (case strip_prefix lit s of None \<Rightarrow> [] | Some r \<Rightarrow> [(last_prev p lit, r, caps)])"
proof (induction lit arbitrary: p s)
  case Nil
  then show ?case by (simp add: backtrack.simps last_prev_def Str.simps)
next
  case (Cons c cs)
  show ?case
  proof (cases s)
    case Nil
    then show ?thesis by (simp add: backtrack.simps Str.simps)
  next
    case (Cons x xs)
    with Cons.IH [of "Some x" xs] show ?thesis
      by (auto simp: backtrack.simps last_prev_def Str.simps split: option.splits)
  qed
qed

lemma backtrack_Star_Cls:
  "backtrack (Star (Cls P)) (p, s, caps) =
     (case s of
        [] \<Rightarrow> [(p, s, caps)]
      | x # xs \<Rightarrow>
          if P x then backtrack (Star (Cls P)) (Some x, xs, caps) @ [(p, s, caps)]
          else [(p, s, caps)])"
  by (subst backtrack_Star) (simp add: backtrack_Cls progress_def split: list.splits)

lemma star_cls_then:
  assumes "\<And>p' x xs. P x \<Longrightarrow> K (p', x # xs, caps) = []"
  shows "concat (map K (backtrack (Star (Cls P)) (p, s, caps))) =
           K (last_prev p (takeWhile P s), dropWhile P s, caps)"
proof (induction s arbitrary: p)
  case Nil
  then show ?case
    by (subst backtrack_Star_Cls) (simp add: last_prev_def)
next
  case (Cons x xs)
  with assms show ?case
    by (subst backtrack_Star_Cls) (simp add: last_prev_def)
qed

lemma star_cls_length:
  "st' \<in> set (backtrack (Star (Cls P)) (p, s, caps)) \<Longrightarrow> length (fst (snd st')) \<le> length s"
proof (induction s arbitrary: p)
  case Nil
  then show ?case
    by (subst (asm) backtrack_Star_Cls) auto
next
  case (Cons x xs)
  from Cons.prems show ?case
    by (subst (asm) backtrack_Star_Cls) (auto split: if_splits dest: Cons.IH)
qed

lemma take_takeWhile: "take (length s - length (dropWhile P s)) s = takeWhile P s"
proof -
  have "length s - length (dropWhile P s) = length (takeWhile P s)"
    by (metis add_diff_cancel_right' length_append takeWhile_dropWhile_id)
  then show ?thesis
    by (metis append_eq_conv_conj takeWhile_dropWhile_id)
qed

lemma backtrack_text_tail:
  "backtrack text_tail (p, body, caps) =
     (case strip_prefix ''</w:t>'' (dropWhile not_lt body) of
        None \<Rightarrow> []
      | Some rest \<Rightarrow> [(Some (CHR ''>''), rest, (2, takeWhile not_lt body) # caps)])"
proof -
  define K where "K = (\<lambda>st'. backtrack (Str ''</w:t>'')
      (case st' of (p', s', caps') \<Rightarrow> (p', s', (2, take (length body - length s') body) # caps')))"
  have fail: "K (p', x # xs, caps) = []" if "not_lt x" for p' x xs
    using that by (simp add: K_def backtrack_Str not_lt_def)
  have "backtrack text_tail (p, body, caps) =
      concat (map K (backtrack (Star (Cls not_lt)) (p, body, caps)))"
    by (simp add: text_tail_def backtrack_Seq backtrack_Grp K_def comp_def)
  also have "\<dots> = K (last_prev p (takeWhile not_lt body), dropWhile not_lt body, caps)"
    using fail by (rule star_cls_then)
  finally show ?thesis
    by (simp add: K_def backtrack_Str take_takeWhile last_prev_def split: option.splits)
qed

lemma attrs_group_then:
  assumes "\<And>p' x xs caps'. not_gt x \<Longrightarrow> K (p', x # xs, caps') = []"
    and "\<And>p' p'' u caps'. K (p', u, caps') = K (p'', u, caps')"
  shows "concat (map K (backtrack attrs_group (p, r, caps))) =
           K (p, snd (optional_attrs r), caps_of (fst (optional_attrs r)) caps)"
proof (cases r)
  case Nil
  then show ?thesis
    by (simp add: attrs_group_def backtrack_Opt backtrack_Grp backtrack_Seq backtrack_Cls
          optional_attrs_def caps_of_def)
next
  case (Cons c cs)
  show ?thesis
  proof (cases "is_space_char c")
    case True
    define K' where "K' = (\<lambda>st'. K (case st' of (p', s', caps') \<Rightarrow>
        (p', s', (1, take (length r - length s') r) # caps')))"
    have fail: "K' (p', x # xs, caps) = []" if "not_gt x" for p' x xs
      using that assms(1) by (simp add: K'_def)
    from True have c: "not_gt c" by (rule space_not_gt)
    have "filter (progress (p, r, caps))
        (map (\<lambda>st'. case st' of (p', s', caps') \<Rightarrow> (p', s', (1, take (length r - length s') r) # caps'))
          (backtrack (Star (Cls not_gt)) (Some c, cs, caps))) =
        map (\<lambda>st'. case st' of (p', s', caps') \<Rightarrow> (p', s', (1, take (length r - length s') r) # caps'))
          (backtrack (Star (Cls not_gt)) (Some c, cs, caps))"
      using Cons by (auto simp: filter_id_conv progress_def dest!: star_cls_length)
    with True Cons have "concat (map K (backtrack attrs_group (p, r, caps))) =
        concat (map K' (backtrack (Star (Cls not_gt)) (Some c, cs, caps))) @ K (p, r, caps)"
      by (simp add: attrs_group_def backtrack_Opt backtrack_Grp backtrack_Seq backtrack_Cls
            K'_def comp_def)
    also have "K (p, r, caps) = []"
      using Cons c assms(1) by simp
    also have "concat (map K' (backtrack (Star (Cls not_gt)) (Some c, cs, caps))) =
        K' (last_prev (Some c) (takeWhile not_gt cs), dropWhile not_gt cs, caps)"
      using fail by (rule star_cls_then)
    also have "\<dots> = K (last_prev (Some c) (takeWhile not_gt cs), dropWhile not_gt r,
        (1, takeWhile not_gt r) # caps)"
      using Cons c take_takeWhile [of r not_gt] by (simp add: K'_def)
    also have "\<dots> = K (p, dropWhile not_gt r, (1, takeWhile not_gt r) # caps)"
      by (rule assms(2))
    finally show ?thesis
      using True Cons by (simp add: optional_attrs_def caps_of_def)
  next
    case False
    with Cons show ?thesis
      by (simp add: attrs_group_def backtrack_Opt backtrack_Grp backtrack_Seq backtrack_Cls
            optional_attrs_def caps_of_def)
  qed
qed

lemma backtrack_Chr_then:
  "backtrack (Seq (Chr c) b) (p, s, caps) =
     (case strip_prefix [c] s of None \<Rightarrow> [] | Some r \<Rightarrow> backtrack b (Some c, r, caps))"
  by (cases s) (simp_all add: backtrack_Seq backtrack_Chr)

lemma backtrack_TEXT:
  "backtrack TEXT_ELEMENT_REGEX (p, s, []) =
     (case match_text_at s of
        None \<Rightarrow> []
      | Some ((w, a, x), rest) \<Rightarrow> [(Some (CHR ''>''), rest, (2, x) # caps_of a [])])"
proof (cases "strip_prefix ''<w:t'' s")
  case None
  then show ?thesis
    by (simp add: TEXT_ELEMENT_REGEX_def backtrack_Seq [of "Str _"] backtrack_Str match_text_at_def)
next
  case (Some r)
  define K where "K = backtrack (Seq (Chr (CHR ''>'')) text_tail)"
  have 1: "K (p', x # xs, caps') = []" if "not_gt x" for p' x xs caps'
    using that by (simp add: K_def backtrack_Chr_then not_gt_def)
  have 2: "K (p', u, caps') = K (p'', u, caps')" for p' p'' u caps'
    by (simp add: K_def backtrack_Chr_then)
  from Some have "backtrack TEXT_ELEMENT_REGEX (p, s, []) =
      concat (map K (backtrack attrs_group (last_prev p ''<w:t'', r, [])))"
    by (simp add: TEXT_ELEMENT_REGEX_def backtrack_Seq [of "Str _"] backtrack_Str K_def
          attrs_group_def text_tail_def backtrack_Seq [of "Opt _", abs_def])
  also have "\<dots> = K (last_prev p ''<w:t'', snd (optional_attrs r), caps_of (fst (optional_attrs r)) [])"
    using 1 2 by (rule attrs_group_then)
  finally show ?thesis
    using Some
    by (auto simp: K_def backtrack_Chr_then backtrack_text_tail match_text_at_def
          split: option.splits prod.splits)
qed

lemma TEXT_ELEMENT_REGEX_match:
  "regexp_match_at TEXT_ELEMENT_REGEX p s =
     map_option (\<lambda>((w, a, x), rest). ((w, (2, x) # caps_of a []), rest)) (match_text_at s)"
proof (cases "match_text_at s")
  case None
  then show ?thesis by (simp add: regexp_match_at_def backtrack_TEXT)
next
  case (Some m)
  then obtain w a x rest where m: "match_text_at s = Some ((w, a, x), rest)"
    by (cases m) auto
  from match_text_at_SomeD [OF m] have "take (length s - length rest) s = w" by simp
  with m show ?thesis by (simp add: regexp_match_at_def backtrack_TEXT)
qed

lemma first_of_append: "first_of (xs @ ys) = (case first_of xs of None \<Rightarrow> first_of ys | Some x \<Rightarrow> Some x)"
  by (cases xs) (simp_all add: first_of_def)

lemma backtrack_Lazy_any:
  "backtrack (Lazy (Cls (\<lambda>c. True))) (p, s, caps) =
     (p, s, caps) # (case s of [] \<Rightarrow> [] | x # xs \<Rightarrow> backtrack (Lazy (Cls (\<lambda>c. True))) (Some x, xs, caps))"
  by (subst backtrack_Lazy) (simp add: backtrack_Cls progress_def split: list.splits)

lemma lazy_any_then_lit:
  assumes "lit \<noteq> []"
  shows "first_of (concat (map (\<lambda>st'. backtrack (Str lit)
            (case st' of (p', s', caps') \<Rightarrow>
               (p', s', (n, take (length (pre @ s) - length s') (pre @ s)) # caps')))
          (backtrack (Lazy (Cls (\<lambda>c. True))) (p, s, caps)))) =
         (case lazy_until lit s of
            None \<Rightarrow> None
          | Some (c, rest) \<Rightarrow> Some (Some (last lit), rest, (n, pre @ c) # caps))"
proof (induction s arbitrary: p pre)
  case Nil
  from assms have "strip_prefix lit [] = None" by (cases lit) auto
  then show ?case
    by (subst backtrack_Lazy_any) (simp add: backtrack_Str first_of_def)
next
  case (Cons x xs)
  show ?case
  proof (cases "strip_prefix lit (x # xs)")
    case None
    with Cons.IH [of "pre @ [x]" "Some x"] show ?thesis
      by (subst backtrack_Lazy_any) (simp add: backtrack_Str first_of_append split: option.splits)
  next
    case (Some r)
    with assms show ?thesis
      by (subst backtrack_Lazy_any) (simp add: backtrack_Str first_of_append first_of_def last_prev_def)
  qed
qed

lemma dropWhile_not_gt_hd: "dropWhile not_gt r = g # body \<Longrightarrow> g = CHR ''>''"
  using hd_dropWhile [of not_gt r] by (simp add: not_gt_def)

lemma first_of_paragraph_tail:
  "first_of (backtrack paragraph_tail (p, body, caps)) =
     (case lazy_until ''</w:p>'' body of
        None \<Rightarrow> None
      | Some (c, rest) \<Rightarrow> Some (Some (CHR ''>''), rest, (1, c) # caps))"
  using lazy_any_then_lit [of "''</w:p>''" 1 "[]" body p caps]
  by (simp add: paragraph_tail_def backtrack_Seq backtrack_Grp comp_def split: option.splits)

lemma first_of_PARAGRAPH:
  "first_of (backtrack PARAGRAPH_REGEX (p, s, [])) =
     map_option (\<lambda>((f, c), rest). (Some (CHR ''>''), rest, [(1, c)])) (match_paragraph_at s)"
proof (cases "strip_prefix ''<w:p'' s")
  case None
  then show ?thesis
    by (simp add: PARAGRAPH_REGEX_def backtrack_Seq [of "Str _"] backtrack_Str match_paragraph_at_def
          first_of_def)
next
  case (Some r)
  define K where "K = backtrack (Seq (Chr (CHR ''>'')) paragraph_tail)"
  have fail: "K (p', x # xs, []) = []" if "not_gt x" for p' x xs
    using that by (simp add: K_def backtrack_Chr_then not_gt_def)
  show ?thesis
  proof (cases "case r of [] \<Rightarrow> False | c # cs \<Rightarrow> is_word_char c")
    case True
    with Some show ?thesis
      by (simp add: PARAGRAPH_REGEX_def backtrack_Seq [of "Str _"] backtrack_Seq [of WordB]
            backtrack_Str match_paragraph_at_def first_of_def backtrack.simps(9)
            is_word_opt_def last_prev_def is_word_char_def split: list.splits)
  next
    case False
    with Some have "backtrack PARAGRAPH_REGEX (p, s, []) =
        concat (map K (backtrack (Star (Cls not_gt)) (Some (CHR ''p''), r, [])))"
      by (simp add: PARAGRAPH_REGEX_def backtrack_Seq [of "Str _"] backtrack_Seq [of WordB]
            backtrack_Seq [of "Star _"] backtrack_Str backtrack.simps(9)
            is_word_opt_def last_prev_def is_word_char_def K_def paragraph_tail_def
            split: list.splits)
    also have "\<dots> = K (last_prev (Some (CHR ''p'')) (takeWhile not_gt r), dropWhile not_gt r, [])"
      using fail by (rule star_cls_then)
    finally have bt: "backtrack PARAGRAPH_REGEX (p, s, []) =
        K (last_prev (Some (CHR ''p'')) (takeWhile not_gt r), dropWhile not_gt r, [])" .
    show ?thesis
    proof (cases "dropWhile not_gt r")
      case Nil
      with Some False bt show ?thesis
        by (simp add: match_paragraph_at_def K_def backtrack_Chr_then first_of_def
              del: dropWhile_eq_Nil_conv)
    next
      case (Cons g body)
      with dropWhile_not_gt_hd [OF Cons] Some False bt show ?thesis
        by (simp add: match_paragraph_at_def K_def backtrack_Chr_then first_of_paragraph_tail
              split: option.splits)
    qed
  qed
qed

lemma regexp_match_at_first:
  "regexp_match_at r p s =
     map_option (\<lambda>(p', rest, caps). ((take (length s - length rest) s, caps), rest))
       (first_of (backtrack r (p, s, [])))"
  by (simp add: regexp_match_at_def first_of_def split: list.splits)

lemma PARAGRAPH_REGEX_match:
  "regexp_match_at PARAGRAPH_REGEX p s =
     map_option (\<lambda>((f, c), rest). ((f, [(1, c)]), rest)) (match_paragraph_at s)"
proof (cases "match_paragraph_at s")
  case None
  then show ?thesis by (simp add: regexp_match_at_first first_of_PARAGRAPH)
next
  case (Some m)
  then obtain f c rest where m: "match_paragraph_at s = Some ((f, c), rest)"
    by (cases m) auto
  from match_paragraph_at_append [OF m] have "take (length s - length rest) s = f" by simp
  with m show ?thesis by (simp add: regexp_match_at_first first_of_PARAGRAPH)
qed

lemma backtrack_OPEN_TAG:
  "backtrack OPEN_TAG_REGEX (p, s, []) =
     (case match_open_tag_at s of
        None \<Rightarrow> []
      | Some (a, rest) \<Rightarrow> [(Some (CHR ''>''), rest, caps_of a [])])"
proof (cases "strip_prefix ''<w:p'' s")
  case None
  then show ?thesis
    by (simp add: OPEN_TAG_REGEX_def backtrack_Seq [of "Str _"] backtrack_Str match_open_tag_at_def)
next
  case (Some r)
  define K where "K = backtrack (Chr (CHR ''>''))"
  have 1: "K (p', x # xs, caps') = []" if "not_gt x" for p' x xs caps'
    using that by (simp add: K_def backtrack_Chr not_gt_def)
  have 2: "K (p', u, caps') = K (p'', u, caps')" for p' p'' u caps'
    by (simp add: K_def backtrack_Chr)
  from Some have "backtrack OPEN_TAG_REGEX (p, s, []) =
      concat (map K (backtrack attrs_group (last_prev p ''<w:p'', r, [])))"
    by (simp add: OPEN_TAG_REGEX_def backtrack_Seq [of "Str _"] backtrack_Str K_def
          attrs_group_def backtrack_Seq [of "Opt _", abs_def])
  also have "\<dots> = K (last_prev p ''<w:p'', snd (optional_attrs r), caps_of (fst (optional_attrs r)) [])"
    using 1 2 by (rule attrs_group_then)
  finally show ?thesis
    using Some
    by (cases "snd (optional_attrs r)")
       (auto simp: K_def backtrack_Chr match_open_tag_at_def split: option.splits prod.splits if_splits)
qed

lemma OPEN_TAG_REGEX_match:
  "regexp_match_at OPEN_TAG_REGEX p s =
     map_option (\<lambda>(a, rest). ((take (length s - length rest) s, caps_of a []), rest))
       (match_open_tag_at s)"
  by (cases "match_open_tag_at s") (auto simp: regexp_match_at_def backtrack_OPEN_TAG)

lemma take_takeWhile_pre:
  "take (length (pre @ s) - length (dropWhile P s)) (pre @ s) = pre @ takeWhile P s"
proof -
  have "length (pre @ s) - length (dropWhile P s) = length (pre @ takeWhile P s)"
    by (metis add_diff_cancel_right' append_assoc length_append takeWhile_dropWhile_id)
  moreover have "pre @ s = (pre @ takeWhile P s) @ dropWhile P s" by simp
  ultimately show ?thesis by (metis append_eq_conv_conj)
qed

lemma backtrack_ID_LINE:
  "backtrack ID_LINE_REGEX (p, s, []) =
     (if p = None then
        (case id_line s of None \<Rightarrow> [] | Some g \<Rightarrow> [(Some (CHR '']''), [], [(1, g)])])
      else [])"
proof (cases "p = None")
  case False
  then show ?thesis
    by (auto simp: ID_LINE_REGEX_def backtrack_Seq [of Bol] backtrack.simps(10))
next
  case True
  define T where "T = Seq (Chr (CHR '']'')) Eol"
  define r0 where "r0 = drop 1 s"
  define K where "K = (\<lambda>st'. backtrack T
      (case st' of (p', s', caps') \<Rightarrow> (p', s', (1::nat, take (length r0 - length s') r0) # caps')))"
  have fail: "K (p', x # xs, []) = []" if "is_digit_char x" for p' x xs
    using that by (auto simp: K_def T_def backtrack_Chr_then is_digit_char_def)
  show ?thesis
  proof (cases "strip_prefix ''[p'' s")
    case None
    with True show ?thesis
      by (cases s; cases "tl s")
         (auto simp: ID_LINE_REGEX_def backtrack_Seq [of Bol] backtrack.simps(10) backtrack_Chr_then
            backtrack_Seq [of "Grp _ _"] backtrack_Grp id_line_def split: if_splits)
  next
    case (Some r)
    then have s: "s = ''[p'' @ r" by (simp add: strip_prefix_Some_iff)
    then have r0: "r0 = CHR ''p'' # r" by (simp add: r0_def)
    show ?thesis
    proof (cases r)
      case Nil
      with True s show ?thesis
        by (simp add: ID_LINE_REGEX_def backtrack_Seq [of Bol] backtrack.simps(10) backtrack_Chr_then
              backtrack_Seq [of "Grp _ _"] backtrack_Seq [of "Cls _"] backtrack_Grp backtrack_Cls id_line_def)
    next
      case (Cons x xs)
      show ?thesis
      proof (cases "is_digit_char x")
        case False
        with True s Cons show ?thesis
          by (simp add: ID_LINE_REGEX_def backtrack_Seq [of Bol] backtrack.simps(10) backtrack_Chr_then
                backtrack_Seq [of "Grp _ _"] backtrack_Seq [of "Cls _"] backtrack_Grp backtrack_Cls
                id_line_def)
      next
        case d: True
        with True s Cons r0 have "backtrack ID_LINE_REGEX (p, s, []) =
            concat (map K (backtrack (Star (Cls is_digit_char)) (Some x, xs, [])))"
          by (simp add: ID_LINE_REGEX_def backtrack_Seq [of Bol] backtrack.simps(10) backtrack_Chr_then
                backtrack_Seq [of "Grp _ _"] backtrack_Seq [of "Cls _"] backtrack_Grp backtrack_Cls
                K_def T_def comp_def)
        also have "\<dots> = K (last_prev (Some x) (takeWhile is_digit_char xs), dropWhile is_digit_char xs, [])"
          using fail by (rule star_cls_then)
        finally have bt: "backtrack ID_LINE_REGEX (p, s, []) =
            K (last_prev (Some x) (takeWhile is_digit_char xs), dropWhile is_digit_char xs, [])" .
        define D where "D = dropWhile is_digit_char xs"
        from d Cons r0 take_takeWhile_pre [of "[CHR ''p'', x]" xs is_digit_char]
        have cap: "take (length r0 - length D) r0 = CHR ''p'' # takeWhile is_digit_char r"
          by (simp add: D_def)
        from d Cons have dw: "dropWhile is_digit_char r = D"
          and tw: "takeWhile is_digit_char r \<noteq> []"
          by (simp_all add: D_def)
        have "K (q, D, []) =
            (if D = '']'' then [(Some (CHR '']''), [], [(1, take (length r0 - length D) r0)])]
             else [])" for q
          unfolding K_def T_def
          by (cases D) (auto simp: backtrack_Chr_then backtrack.simps(11))
        then have KD: "K (q, D, []) =
            (if D = '']'' then [(Some (CHR '']''), [], [(1, CHR ''p'' # takeWhile is_digit_char r)])]
             else [])" for q
          by (simp only: cap)
        from Some tw dw have idl: "id_line s =
            (if D = '']'' then Some (CHR ''p'' # takeWhile is_digit_char r) else None)"
          by (simp add: id_line_def)
        from True show ?thesis
          unfolding bt D_def [symmetric] KD idl by simp
      qed
    qed
  qed
qed

lemma ID_LINE_REGEX_match:
  "regexp_match_at ID_LINE_REGEX None line =
     map_option (\<lambda>g. ((line, [(1, g)]), [])) (id_line line)"
  "regexp_match_at ID_LINE_REGEX (Some c) s = None"
  by (auto simp: regexp_match_at_def backtrack_ID_LINE split: option.splits)

section \<open>Results\<close>



text \<open>
  C2 (rewrite rule for a matched paragraph).  The paragraph blocks of the document
  \<open>replaceParagraphText\<close> returns are, in order, the rewritten blocks of the input.  Take
  a paragraph block whose reconstructed text is a key of the mapping and which has at least
  one text run.  What \<open>replaceParagraphText\<close> makes of the block is again one paragraph
  block; the run rule finds in it as many text runs as in the original; the inner text of
  the first is the escaped translation and the inner text of every other one is empty; and
  the attributes of the runs are, in order, the attributes of the original runs.
\<close>

theorem rewrite_rule:
  assumes "(fullMatch, paragraphContent) \<in> set (paragraph_blocks xml)"
    and "translations (reconstructed_text paragraphContent) = Some translation"
    and "text_runs paragraphContent = first # others"
  shows "paragraph_blocks (replaceParagraphText xml translations) =
       map (\<lambda>m. (replace_paragraph translations m, rewritten_content translations (snd m)))
         (paragraph_blocks xml) \<and>
     replaceParagraphText fullMatch translations =
       replace_paragraph translations (fullMatch, paragraphContent) \<and>
     paragraph_blocks (replace_paragraph translations (fullMatch, paragraphContent)) =
       [(replace_paragraph translations (fullMatch, paragraphContent),
         rewritten_content translations paragraphContent)] \<and>
     length (text_runs (rewritten_content translations paragraphContent)) =
       length (text_runs paragraphContent) \<and>
     map (\<lambda>m. snd (snd m)) (text_runs (rewritten_content translations paragraphContent)) =
       escapeXml translation # replicate (length others) [] \<and>
     map (\<lambda>m. fst (snd m)) (text_runs (rewritten_content translations paragraphContent)) =
       map (\<lambda>m. fst (snd m)) (text_runs paragraphContent)"
proof -
  from assms(2) have rc: "rewritten_content translations paragraphContent =
      text_replace (rewrite_run translation) paragraphContent True"
    by (simp add: rewritten_content_def)
  from paragraph_blocks_free [OF assms(1)] have "\<not> sublist ''</w:p>'' paragraphContent" .
  from rewritten_paragraph [of paragraphContent "translations" translation fullMatch, OF this assms(2)]
  have 1: "paragraph_blocks (replace_paragraph translations (fullMatch, paragraphContent)) =
       [(replace_paragraph translations (fullMatch, paragraphContent),
         rewritten_content translations paragraphContent)]"
    by (simp add: rc)
  obtain w a x where first: "first = (w, a, x)" by (cases first) auto
  with assms(3) have 2: "text_runs (rewritten_content translations paragraphContent) =
      (run_element a (escapeXml translation), a, escapeXml translation) # map emptied others"
    by (simp add: text_runs_rewrite_True rc)
  from 1 2 assms(3) first replaceParagraphText_block [OF assms(1), of "translations"]
    replaceParagraphText_blocks [of xml "translations"]
  show ?thesis by (simp add: emptied_def comp_def map_replicate_const)
qed

theorem rewrite_rule_witness:
  "paragraph_blocks (replaceParagraphText
      ''x<w:p k><w:r><w:t a=1>Hel</w:t></w:r><w:r><w:t>lo</w:t><w:t >!</w:t></w:r></w:p>y''
      [''Hello!'' \<mapsto> ''x < y'']) =
    [(''<w:p k><w:r><w:t a=1>x &lt; y</w:t></w:r><w:r><w:t></w:t><w:t ></w:t></w:r></w:p>'',
      ''<w:r><w:t a=1>x &lt; y</w:t></w:r><w:r><w:t></w:t><w:t ></w:t></w:r>'')] \<and>
   replaceParagraphText ''<w:p k><w:r><w:t a=1>Hel</w:t></w:r><w:r><w:t>lo</w:t><w:t >!</w:t></w:r></w:p>''
      [''Hello!'' \<mapsto> ''x < y''] =
    ''<w:p k><w:r><w:t a=1>x &lt; y</w:t></w:r><w:r><w:t></w:t><w:t ></w:t></w:r></w:p>'' \<and>
   paragraph_blocks ''<w:p k><w:r><w:t a=1>x &lt; y</w:t></w:r><w:r><w:t></w:t><w:t ></w:t></w:r></w:p>'' =
     [(''<w:p k><w:r><w:t a=1>x &lt; y</w:t></w:r><w:r><w:t></w:t><w:t ></w:t></w:r></w:p>'',
       ''<w:r><w:t a=1>x &lt; y</w:t></w:r><w:r><w:t></w:t><w:t ></w:t></w:r>'')] \<and>
   length (text_runs ''<w:r><w:t a=1>x &lt; y</w:t></w:r><w:r><w:t></w:t><w:t ></w:t></w:r>'') = 3 \<and>
   map (\<lambda>m. snd (snd m)) (text_runs ''<w:r><w:t a=1>x &lt; y</w:t></w:r><w:r><w:t></w:t><w:t ></w:t></w:r>'') =
     [''x &lt; y'', [], []] \<and>
   map (\<lambda>m. fst (snd m)) (text_runs ''<w:r><w:t a=1>x &lt; y</w:t></w:r><w:r><w:t></w:t><w:t ></w:t></w:r>'') =
     [Some '' a=1'', None, Some '' '']"
proof -
  have pb: "paragraph_blocks
        ''x<w:p k><w:r><w:t a=1>Hel</w:t></w:r><w:r><w:t>lo</w:t><w:t >!</w:t></w:r></w:p>y'' =
      [(''<w:p k><w:r><w:t a=1>Hel</w:t></w:r><w:r><w:t>lo</w:t><w:t >!</w:t></w:r></w:p>'',
        ''<w:r><w:t a=1>Hel</w:t></w:r><w:r><w:t>lo</w:t><w:t >!</w:t></w:r>'')]"
    by code_simp
  have h1: "(''<w:p k><w:r><w:t a=1>Hel</w:t></w:r><w:r><w:t>lo</w:t><w:t >!</w:t></w:r></w:p>'',
             ''<w:r><w:t a=1>Hel</w:t></w:r><w:r><w:t>lo</w:t><w:t >!</w:t></w:r>'') \<in>
      set (paragraph_blocks
        ''x<w:p k><w:r><w:t a=1>Hel</w:t></w:r><w:r><w:t>lo</w:t><w:t >!</w:t></w:r></w:p>y'')"
    unfolding pb by simp
  have h2: "[''Hello!'' \<mapsto> ''x < y'']
      (reconstructed_text ''<w:r><w:t a=1>Hel</w:t></w:r><w:r><w:t>lo</w:t><w:t >!</w:t></w:r>'') =
      Some ''x < y''"
    by code_simp
  have h3: "text_runs ''<w:r><w:t a=1>Hel</w:t></w:r><w:r><w:t>lo</w:t><w:t >!</w:t></w:r>'' =
      (''<w:t a=1>Hel</w:t>'', Some '' a=1'', ''Hel'') #
      [(''<w:t>lo</w:t>'', None, ''lo''), (''<w:t >!</w:t>'', Some '' '', ''!'')]"
    by code_simp
  have e: "escapeXml ''x < y'' = ''x &lt; y''"
    by code_simp
  have out: "replace_paragraph [''Hello!'' \<mapsto> ''x < y'']
      (''<w:p k><w:r><w:t a=1>Hel</w:t></w:r><w:r><w:t>lo</w:t><w:t >!</w:t></w:r></w:p>'',
       ''<w:r><w:t a=1>Hel</w:t></w:r><w:r><w:t>lo</w:t><w:t >!</w:t></w:r>'') =
      ''<w:p k><w:r><w:t a=1>x &lt; y</w:t></w:r><w:r><w:t></w:t><w:t ></w:t></w:r></w:p>''"
    by code_simp
  have rc: "rewritten_content [''Hello!'' \<mapsto> ''x < y'']
      ''<w:r><w:t a=1>Hel</w:t></w:r><w:r><w:t>lo</w:t><w:t >!</w:t></w:r>'' =
      ''<w:r><w:t a=1>x &lt; y</w:t></w:r><w:r><w:t></w:t><w:t ></w:t></w:r>''"
    by code_simp
  from rewrite_rule [of _ _ _ "[''Hello!'' \<mapsto> ''x < y'']", OF h1 h2 h3] show ?thesis
    unfolding pb out h3 e rc by (simp add: out rc numeral_3_eq_3)
qed

text \<open>
  C3 (non-matching passthrough and round-trip identity).  The callback returns a paragraph
  block as it stands when the reconstructed text of the block is not a key of the mapping;
  a document part none of whose blocks has a key of the mapping comes back unchanged; and
  with the empty mapping every document part comes back unchanged.
\<close>

theorem passthrough:
  "(translations (reconstructed_text paragraphContent) = None \<longrightarrow>
      replace_paragraph translations (fullMatch, paragraphContent) = fullMatch) \<and>
   ((\<forall>m \<in> set (paragraph_blocks xml). translations (reconstructed_text (snd m)) = None) \<longrightarrow>
      replaceParagraphText xml translations = xml) \<and>
   replaceParagraphText xml Map.empty = xml"
proof (intro conjI impI)
  assume "translations (reconstructed_text paragraphContent) = None"
  then show "replace_paragraph translations (fullMatch, paragraphContent) = fullMatch"
    by (rule replace_paragraph_no_key)
next
  assume "\<forall>m \<in> set (paragraph_blocks xml). translations (reconstructed_text (snd m)) = None"
  then show "replaceParagraphText xml translations = xml"
    unfolding replaceParagraphText_def
    by (intro paragraph_replace_id) (auto simp: replace_paragraph_no_key)
next
  show "replaceParagraphText xml Map.empty = xml"
    unfolding replaceParagraphText_def
    by (intro paragraph_replace_id) (auto simp: replace_paragraph_no_key)
qed

theorem passthrough_witness:
  "replace_paragraph [''Hello'' \<mapsto> ''Bonjour''] (''<w:p a><w:t >Hi</w:t></w:p>'', ''<w:t >Hi</w:t>'')
     = ''<w:p a><w:t >Hi</w:t></w:p>'' \<and>
   replaceParagraphText ''x<w:p a><w:t >Hi</w:t></w:p> y'' [''Hello'' \<mapsto> ''Bonjour'']
     = ''x<w:p a><w:t >Hi</w:t></w:p> y'' \<and>
   replaceParagraphText ''x<w:p a><w:t >Hi</w:t></w:p> y'' Map.empty = ''x<w:p a><w:t >Hi</w:t></w:p> y''"
proof -
  have 1: "reconstructed_text ''<w:t >Hi</w:t>'' = ''Hi''"
    by code_simp
  have 2: "paragraph_blocks ''x<w:p a><w:t >Hi</w:t></w:p> y'' =
      [(''<w:p a><w:t >Hi</w:t></w:p>'', ''<w:t >Hi</w:t>'')]"
    by code_simp
  from passthrough [of "[''Hello'' \<mapsto> ''Bonjour'']" "''<w:t >Hi</w:t>''"
      "''<w:p a><w:t >Hi</w:t></w:p>''" "''x<w:p a><w:t >Hi</w:t></w:p> y''"] 1 2
  show ?thesis by simp
qed

text \<open>
  C4 (escaping round trip, the code at the failing input).  \<open>escapeXml\<close> turns the
  translated text \<^verbatim>\<open>&lt;\<close> into \<^verbatim>\<open>&amp;lt;\<close>; \<open>unescapeXml\<close> replaces
  \<^verbatim>\<open>&amp;\<close> first and so produces a new \<^verbatim>\<open>&lt;\<close>, which its second replacement
  turns into \<^verbatim>\<open><\<close>: the round trip returns \<^verbatim>\<open><\<close>, not the text it started from.
\<close>

theorem unescapeXml_escapeXml_fails:
  "escapeXml ''&lt;'' = ''&amp;lt;'' \<and> unescapeXml (escapeXml ''&lt;'') = ''<'' \<and>
   unescapeXml (escapeXml ''&lt;'') \<noteq> ''&lt;''"
  by (simp add: escapeXml_def unescapeXml_def replace_char_def)

text \<open>
  C5 (empty paragraphs are skipped, and no identifier is lost).  At a block whose combined
  text is blank the loop body leaves the segments and the counter as they are.  The segments
  of a document part are made from the blocks whose text is not blank, one segment a block,
  the segment at index \<open>i\<close> with the starting counter incremented \<open>i\<close> times; the counter
  returned is the starting counter incremented once for each of them.  So a block that comes
  behind blank blocks gets the counter that stood before them, the starting counter
  incremented once for each block with text before it; where that does not pass \<open>2 ^ 53\<close>
  its identifier is \<^verbatim>\<open>p\<close> followed by the numeral of the starting counter plus their number.
  And when the first block of the input is blank, extraction gives what it gives on the
  input behind that block with the same starting counter.
\<close>

theorem empty_paragraph_skip:
  "(\<not> kept m \<longrightarrow> extract_step source (segs, idn) m = (segs, idn)) \<and>
   extractParagraphSegments xml source startId =
     \<lparr>segments = map (\<lambda>im. segment_of source ((number_increment ^^ fst im) startId, snd im))
                   (enumerate 0 (filter kept (paragraph_blocks xml))),
      nextId = (number_increment ^^ length (filter kept (paragraph_blocks xml))) startId\<rparr> \<and>
   (paragraph_blocks xml = before @ blanks @ nextBlock # after \<and>
    (\<forall>b \<in> set blanks. \<not> kept b) \<and> kept nextBlock \<longrightarrow>
      length (filter kept before) < length (segments (extractParagraphSegments xml source startId)) \<and>
      segments (extractParagraphSegments xml source startId) ! length (filter kept before) =
        segment_of source ((number_increment ^^ length (filter kept before)) startId, nextBlock) \<and>
      (number_value startId + int (length (filter kept before)) \<le> 2 ^ 53 \<longrightarrow>
         seg_id (segments (extractParagraphSegments xml source startId) ! length (filter kept before)) =
           ''p'' @ decimal_int (number_value startId + int (length (filter kept before))))) \<and>
   (regexp_exec match_paragraph_at xml = Some (skipped, (fullMatch, paragraphContent), rest) \<and>
    trim (join [] (extract_texts paragraphContent)) = [] \<longrightarrow>
      extractParagraphSegments xml source startId = extractParagraphSegments rest source startId)"
proof (intro conjI impI)
  assume "\<not> kept m"
  then show "extract_step source (segs, idn) m = (segs, idn)"
    by (rule extract_step_blank)
next
  show "extractParagraphSegments xml source startId =
     \<lparr>segments = map (\<lambda>im. segment_of source ((number_increment ^^ fst im) startId, snd im))
                   (enumerate 0 (filter kept (paragraph_blocks xml))),
      nextId = (number_increment ^^ length (filter kept (paragraph_blocks xml))) startId\<rparr>"
    by (rule extractParagraphSegments_blocks)
next
  assume a: "paragraph_blocks xml = before @ blanks @ nextBlock # after \<and>
    (\<forall>b \<in> set blanks. \<not> kept b) \<and> kept nextBlock"
  then have f: "filter kept (paragraph_blocks xml) =
      filter kept before @ nextBlock # filter kept after"
    by (simp add: filter_kept_blanks)
  then show len: "length (filter kept before) <
      length (segments (extractParagraphSegments xml source startId))"
    by (simp add: segments_length)
  from f have "length (filter kept before) < length (filter kept (paragraph_blocks xml))"
    by simp
  from segments_nth [OF this, of source startId] f
  show nth: "segments (extractParagraphSegments xml source startId) ! length (filter kept before) =
        segment_of source ((number_increment ^^ length (filter kept before)) startId, nextBlock)"
    by simp
  assume "number_value startId + int (length (filter kept before)) \<le> 2 ^ 53"
  then have "number_value ((number_increment ^^ length (filter kept before)) startId) =
      number_value startId + int (length (filter kept before))"
    by (rule number_value_funpow)
  then show "seg_id (segments (extractParagraphSegments xml source startId) ! length (filter kept before)) =
           ''p'' @ decimal_int (number_value startId + int (length (filter kept before)))"
    by (simp add: nth segment_of_def number_toString_value)
next
  assume a: "regexp_exec match_paragraph_at xml = Some (skipped, (fullMatch, paragraphContent), rest) \<and>
    trim (join [] (extract_texts paragraphContent)) = []"
  then have "paragraph_blocks xml = (fullMatch, paragraphContent) # paragraph_blocks rest"
    by (simp add: paragraph_blocks_unfold [of xml])
  with a show "extractParagraphSegments xml source startId = extractParagraphSegments rest source startId"
    by (simp add: extractParagraphSegments_blocks kept_def)
qed

theorem empty_paragraph_skip_witness:
  "extract_step ''d'' ([], Number 5) (''<w:p><w:t> </w:t></w:p>'', ''<w:t> </w:t>'') = ([], Number 5) \<and>
   map seg_text (segments (extractParagraphSegments
      ''<w:p><w:t>a</w:t></w:p><w:p><w:t> </w:t></w:p><w:p></w:p><w:p><w:t>b</w:t></w:p>'' ''d'' (Number 5))) =
     [''a'', ''b''] \<and>
   map seg_id (segments (extractParagraphSegments
      ''<w:p><w:t>a</w:t></w:p><w:p><w:t> </w:t></w:p><w:p></w:p><w:p><w:t>b</w:t></w:p>'' ''d'' (Number 5))) =
     [''p5'', ''p6''] \<and>
   number_value (nextId (extractParagraphSegments
      ''<w:p><w:t>a</w:t></w:p><w:p><w:t> </w:t></w:p><w:p></w:p><w:p><w:t>b</w:t></w:p>'' ''d'' (Number 5))) = 7 \<and>
   segments (extractParagraphSegments
      ''<w:p><w:t>a</w:t></w:p><w:p><w:t> </w:t></w:p><w:p></w:p><w:p><w:t>b</w:t></w:p>'' ''d'' (Number 5)) ! 1 =
     \<lparr>seg_id = ''p6'', seg_text = ''b'', seg_translation = None, seg_source = ''d'', seg_runCount = 1\<rparr> \<and>
   extractParagraphSegments ''<w:p><w:t> </w:t></w:p><w:p><w:t>b</w:t></w:p>'' ''d'' (Number 5) =
     extractParagraphSegments ''<w:p><w:t>b</w:t></w:p>'' ''d'' (Number 5)"
proof -
  define a where "a = (''<w:p><w:t>a</w:t></w:p>'', ''<w:t>a</w:t>'')"
  define s where "s = (''<w:p><w:t> </w:t></w:p>'', ''<w:t> </w:t>'')"
  define e where "e = (''<w:p></w:p>'', [] :: string)"
  define b where "b = (''<w:p><w:t>b</w:t></w:p>'', ''<w:t>b</w:t>'')"
  have 0: "number_value (Number 5) = 5"
    by (simp add: Number_inverse)
  have 1: "paragraph_blocks
      ''<w:p><w:t>a</w:t></w:p><w:p><w:t> </w:t></w:p><w:p></w:p><w:p><w:t>b</w:t></w:p>'' = [a] @ [s, e] @ b # []"
    unfolding a_def s_def e_def b_def by code_simp
  have 2: "kept a" "\<not> kept s" "\<not> kept e" "kept b"
    unfolding a_def s_def e_def b_def by code_simp+
  have 3: "join [] (extract_texts (snd a)) = ''a''" "join [] (extract_texts (snd b)) = ''b''"
    "length (extract_texts (snd b)) = 1"
    unfolding a_def b_def by code_simp+
  have 4: "decimal_int 5 = ''5''" "decimal_int 6 = ''6''"
    by (simp_all add: decimal_int_def decimal.simps digit_char_def)
  have 5: "regexp_exec match_paragraph_at ''<w:p><w:t> </w:t></w:p><w:p><w:t>b</w:t></w:p>'' =
      Some ([], (''<w:p><w:t> </w:t></w:p>'', ''<w:t> </w:t>''), ''<w:p><w:t>b</w:t></w:p>'')"
    by code_simp
  have 6: "trim (join [] (extract_texts ''<w:t> </w:t>'')) = []"
    by code_simp
  have 7: "number_value (number_increment (Number 5)) = 6"
    "number_value (number_increment (number_increment (Number 5))) = 7"
    by (simp_all add: number_value_increment 0)
  note skip = empty_paragraph_skip [of s "''d''" "[]" "Number 5"
      "''<w:p><w:t>a</w:t></w:p><w:p><w:t> </w:t></w:p><w:p></w:p><w:p><w:t>b</w:t></w:p>''" "Number 5"
      "[a]" "[s, e]" b "[]"]
  note lead = empty_paragraph_skip [of s "''d''" "[]" "Number 5"
      "''<w:p><w:t> </w:t></w:p><w:p><w:t>b</w:t></w:p>''" "Number 5" "[]" "[]" b "[]"
      "[]" "''<w:p><w:t> </w:t></w:p>''" "''<w:t> </w:t>''" "''<w:p><w:t>b</w:t></w:p>''"]
  from skip [THEN conjunct1] 2
  have A: "extract_step ''d'' ([], Number 5) (''<w:p><w:t> </w:t></w:p>'', ''<w:t> </w:t>'') = ([], Number 5)"
    by (simp add: s_def)
  from skip [THEN conjunct2, THEN conjunct1] 1 2 3 4 7
  have B: "map seg_text (segments (extractParagraphSegments
      ''<w:p><w:t>a</w:t></w:p><w:p><w:t> </w:t></w:p><w:p></w:p><w:p><w:t>b</w:t></w:p>'' ''d'' (Number 5))) =
     [''a'', ''b'']"
    "map seg_id (segments (extractParagraphSegments
      ''<w:p><w:t>a</w:t></w:p><w:p><w:t> </w:t></w:p><w:p></w:p><w:p><w:t>b</w:t></w:p>'' ''d'' (Number 5))) =
     [''p5'', ''p6'']"
    "number_value (nextId (extractParagraphSegments
      ''<w:p><w:t>a</w:t></w:p><w:p><w:t> </w:t></w:p><w:p></w:p><w:p><w:t>b</w:t></w:p>'' ''d'' (Number 5))) = 7"
    by (simp_all add: enumerate_eq_zip segment_of_def number_toString_value 0)
  from skip [THEN conjunct2, THEN conjunct2, THEN conjunct1] 1 2 3 4 7
  have C: "segments (extractParagraphSegments
      ''<w:p><w:t>a</w:t></w:p><w:p><w:t> </w:t></w:p><w:p></w:p><w:p><w:t>b</w:t></w:p>'' ''d'' (Number 5)) ! 1 =
     \<lparr>seg_id = ''p6'', seg_text = ''b'', seg_translation = None, seg_source = ''d'', seg_runCount = 1\<rparr>"
    by (simp add: segment_of_def number_toString_value)
  from lead [THEN conjunct2, THEN conjunct2, THEN conjunct2] 5 6
  have D: "extractParagraphSegments ''<w:p><w:t> </w:t></w:p><w:p><w:t>b</w:t></w:p>'' ''d'' (Number 5) =
     extractParagraphSegments ''<w:p><w:t>b</w:t></w:p>'' ''d'' (Number 5)"
    by blast
  from A B C D show ?thesis by blast
qed

text \<open>
  C6 (reconstructed text after injection, as amended).  The paragraph blocks of the
  document \<open>replaceParagraphText\<close> returns are, in order, the rewritten blocks of the
  input.  Take a paragraph block whose reconstructed text is a key of the mapping, with
  translation \<open>t\<close>, and which has at least one text run.  What \<open>replaceParagraphText\<close>
  makes of the block is one paragraph block whose reconstructed text is \<open>escapeXml t\<close>;
  that is \<open>t\<close> itself when \<open>t\<close> has none of the five escaped characters; and when
  \<open>escapeXml t\<close> is not a key of the mapping, a second pass leaves the rewritten paragraph
  as it is.  When this holds of every block of the document whose text is a key, a second
  pass leaves the whole document as the first pass made it.
\<close>

theorem post_injection_text:
  assumes "(fullMatch, paragraphContent) \<in> set (paragraph_blocks xml)"
    and "translations (reconstructed_text paragraphContent) = Some translation"
    and "text_runs paragraphContent \<noteq> []"
  shows "paragraph_blocks (replaceParagraphText xml translations) =
       map (\<lambda>m. (replace_paragraph translations m, rewritten_content translations (snd m)))
         (paragraph_blocks xml) \<and>
     replaceParagraphText fullMatch translations =
       replace_paragraph translations (fullMatch, paragraphContent) \<and>
     paragraph_blocks (replace_paragraph translations (fullMatch, paragraphContent)) =
       [(replace_paragraph translations (fullMatch, paragraphContent),
         rewritten_content translations paragraphContent)] \<and>
     reconstructed_text (rewritten_content translations paragraphContent) = escapeXml translation \<and>
     (set translation \<inter> set [CHR ''&'', CHR ''<'', CHR ''>'', CHR 0x22, CHR 0x27] = {} \<longrightarrow>
        reconstructed_text (rewritten_content translations paragraphContent) = translation) \<and>
     (translations (escapeXml translation) = None \<longrightarrow>
        replaceParagraphText (replace_paragraph translations (fullMatch, paragraphContent)) translations =
          replace_paragraph translations (fullMatch, paragraphContent)) \<and>
     ((\<forall>m \<in> set (paragraph_blocks xml). \<forall>t. translations (reconstructed_text (snd m)) = Some t \<longrightarrow>
          text_runs (snd m) \<noteq> [] \<and> translations (escapeXml t) = None) \<longrightarrow>
        replaceParagraphText (replaceParagraphText xml translations) translations =
          replaceParagraphText xml translations)"
proof -
  define out where "out = replace_paragraph translations (fullMatch, paragraphContent)"
  define c' where "c' = rewritten_content translations paragraphContent"
  from assms(2) have rc: "c' = text_replace (rewrite_run translation) paragraphContent True"
    by (simp add: rewritten_content_def c'_def)
  from paragraph_blocks_free [OF assms(1)] have "\<not> sublist ''</w:p>'' paragraphContent" .
  from rewritten_paragraph [of paragraphContent "translations" translation fullMatch, OF this assms(2)]
  have 1: "paragraph_blocks out = [(out, c')]" by (simp add: out_def rc)
  from assms(3) obtain w a x others where "text_runs paragraphContent = (w, a, x) # others"
    by (cases "text_runs paragraphContent") auto
  then have "text_runs c' =
      (run_element a (escapeXml translation), a, escapeXml translation) # map emptied others"
    by (simp add: text_runs_rewrite_True rc)
  then have 2: "reconstructed_text c' = escapeXml translation"
    by (simp add: reconstructed_text_def inject_texts_runs join_empty emptied_def comp_def)
  have 3: "replaceParagraphText out translations = out" if "translations (escapeXml translation) = None"
    unfolding replaceParagraphText_def
    by (rule paragraph_replace_id) (use 1 2 that in \<open>auto simp: replace_paragraph_no_key\<close>)
  have 4: "reconstructed_text c' = translation"
    if "set translation \<inter> set [CHR ''&'', CHR ''<'', CHR ''>'', CHR 0x22, CHR 0x27] = {}"
    using 2 escapeXml_id [OF that] by simp
  have 5: "replaceParagraphText fullMatch translations = out"
    unfolding out_def by (rule replaceParagraphText_block [OF assms(1)])
  have 6: "replaceParagraphText (replaceParagraphText xml translations) translations =
          replaceParagraphText xml translations"
    if "\<forall>m \<in> set (paragraph_blocks xml). \<forall>t. translations (reconstructed_text (snd m)) = Some t \<longrightarrow>
          text_runs (snd m) \<noteq> [] \<and> translations (escapeXml t) = None"
    by (rule second_pass_unchanged) (use that in blast)
  from 1 2 3 4 5 6 replaceParagraphText_blocks [of xml "translations"]
  show ?thesis unfolding out_def c'_def by (intro conjI impI) simp_all
qed

theorem post_injection_text_witness:
  "paragraph_blocks (replaceParagraphText ''a<w:p><w:t>Tom</w:t></w:p>b'' [''Tom'' \<mapsto> ''T & J'', ''J'' \<mapsto> ''K'']) =
     [(''<w:p><w:t>T &amp; J</w:t></w:p>'', ''<w:t>T &amp; J</w:t>'')] \<and>
   replaceParagraphText ''<w:p><w:t>Tom</w:t></w:p>'' [''Tom'' \<mapsto> ''T & J'', ''J'' \<mapsto> ''K''] = ''<w:p><w:t>T &amp; J</w:t></w:p>'' \<and>
   paragraph_blocks ''<w:p><w:t>T &amp; J</w:t></w:p>'' =
     [(''<w:p><w:t>T &amp; J</w:t></w:p>'', ''<w:t>T &amp; J</w:t>'')] \<and>
   reconstructed_text ''<w:t>T &amp; J</w:t>'' = ''T &amp; J'' \<and>
   replaceParagraphText ''<w:p><w:t>T &amp; J</w:t></w:p>'' [''Tom'' \<mapsto> ''T & J'', ''J'' \<mapsto> ''K''] = ''<w:p><w:t>T &amp; J</w:t></w:p>'' \<and>
   replaceParagraphText (replaceParagraphText ''a<w:p><w:t>Tom</w:t></w:p>b'' [''Tom'' \<mapsto> ''T & J'', ''J'' \<mapsto> ''K'']) [''Tom'' \<mapsto> ''T & J'', ''J'' \<mapsto> ''K''] =
     replaceParagraphText ''a<w:p><w:t>Tom</w:t></w:p>b'' [''Tom'' \<mapsto> ''T & J'', ''J'' \<mapsto> ''K''] \<and>
   reconstructed_text (rewritten_content [''Tom'' \<mapsto> ''T & J'', ''J'' \<mapsto> ''K''] ''<w:t>J</w:t>'') = ''K''"
proof -
  have pb: "paragraph_blocks ''a<w:p><w:t>Tom</w:t></w:p>b'' =
      [(''<w:p><w:t>Tom</w:t></w:p>'', ''<w:t>Tom</w:t>'')]"
    by code_simp
  have h1: "(''<w:p><w:t>Tom</w:t></w:p>'', ''<w:t>Tom</w:t>'') \<in>
      set (paragraph_blocks ''a<w:p><w:t>Tom</w:t></w:p>b'')"
    unfolding pb by simp
  have rt: "reconstructed_text ''<w:t>Tom</w:t>'' = ''Tom''"
    by code_simp
  have h2: "[''Tom'' \<mapsto> ''T & J'', ''J'' \<mapsto> ''K''] (reconstructed_text ''<w:t>Tom</w:t>'') = Some ''T & J''"
    unfolding rt by simp
  have h3: "text_runs ''<w:t>Tom</w:t>'' \<noteq> []"
    by code_simp
  have e: "escapeXml ''T & J'' = ''T &amp; J''"
    by code_simp
  have out: "replace_paragraph [''Tom'' \<mapsto> ''T & J'', ''J'' \<mapsto> ''K'']
      (''<w:p><w:t>Tom</w:t></w:p>'', ''<w:t>Tom</w:t>'') = ''<w:p><w:t>T &amp; J</w:t></w:p>''"
    by code_simp
  have rc: "rewritten_content [''Tom'' \<mapsto> ''T & J'', ''J'' \<mapsto> ''K''] ''<w:t>Tom</w:t>'' =
      ''<w:t>T &amp; J</w:t>''"
    by code_simp
  have k1: "(''<w:p><w:t>J</w:t></w:p>'', ''<w:t>J</w:t>'') \<in> set (paragraph_blocks ''<w:p><w:t>J</w:t></w:p>'')"
    by code_simp
  have k2: "[''Tom'' \<mapsto> ''T & J'', ''J'' \<mapsto> ''K''] (reconstructed_text ''<w:t>J</w:t>'') = Some ''K''"
    by code_simp
  have k3: "text_runs ''<w:t>J</w:t>'' \<noteq> []"
    by code_simp
  have ek: "escapeXml ''K'' = ''K''"
    by code_simp
  from post_injection_text [of _ _ _ "[''Tom'' \<mapsto> ''T & J'', ''J'' \<mapsto> ''K'']", OF h1 h2 h3]
  have a: "paragraph_blocks (replaceParagraphText ''a<w:p><w:t>Tom</w:t></w:p>b'' [''Tom'' \<mapsto> ''T & J'', ''J'' \<mapsto> ''K'']) =
     [(''<w:p><w:t>T &amp; J</w:t></w:p>'', ''<w:t>T &amp; J</w:t>'')] \<and>
   replaceParagraphText ''<w:p><w:t>Tom</w:t></w:p>'' [''Tom'' \<mapsto> ''T & J'', ''J'' \<mapsto> ''K''] = ''<w:p><w:t>T &amp; J</w:t></w:p>'' \<and>
   paragraph_blocks ''<w:p><w:t>T &amp; J</w:t></w:p>'' =
     [(''<w:p><w:t>T &amp; J</w:t></w:p>'', ''<w:t>T &amp; J</w:t>'')] \<and>
   reconstructed_text ''<w:t>T &amp; J</w:t>'' = ''T &amp; J'' \<and>
   replaceParagraphText ''<w:p><w:t>T &amp; J</w:t></w:p>'' [''Tom'' \<mapsto> ''T & J'', ''J'' \<mapsto> ''K''] = ''<w:p><w:t>T &amp; J</w:t></w:p>'' \<and>
   replaceParagraphText (replaceParagraphText ''a<w:p><w:t>Tom</w:t></w:p>b'' [''Tom'' \<mapsto> ''T & J'', ''J'' \<mapsto> ''K'']) [''Tom'' \<mapsto> ''T & J'', ''J'' \<mapsto> ''K''] =
     replaceParagraphText ''a<w:p><w:t>Tom</w:t></w:p>b'' [''Tom'' \<mapsto> ''T & J'', ''J'' \<mapsto> ''K'']"
    by (simp add: pb out e rc rt h3)
  from post_injection_text [of _ _ _ "[''Tom'' \<mapsto> ''T & J'', ''J'' \<mapsto> ''K'']", OF k1 k2 k3]
  have b: "reconstructed_text (rewritten_content [''Tom'' \<mapsto> ''T & J'', ''J'' \<mapsto> ''K''] ''<w:t>J</w:t>'') = ''K''"
    unfolding ek by simp
  from a b show ?thesis by blast
qed

text \<open>
  C6 as stated fails: with the translation \<^verbatim>\<open>&\<close> the rewritten paragraph carries
  \<^verbatim>\<open>&amp;\<close>, and what the run rule reconstructs from it is \<^verbatim>\<open>&amp;\<close>, not the
  translation.
\<close>

theorem post_injection_text_counterexample:
  "replaceParagraphText ''<w:p><w:t>a</w:t></w:p>'' [''a'' \<mapsto> ''&''] = ''<w:p><w:t>&amp;</w:t></w:p>'' \<and>
   paragraph_blocks ''<w:p><w:t>&amp;</w:t></w:p>'' =
     [(''<w:p><w:t>&amp;</w:t></w:p>'', ''<w:t>&amp;</w:t>'')] \<and>
   reconstructed_text ''<w:t>&amp;</w:t>'' = ''&amp;'' \<and>
   reconstructed_text ''<w:t>&amp;</w:t>'' \<noteq> ''&''"
  by code_simp




text \<open>
  C8 (plain-text round trip).  The plain-text form of the two segments with identifiers
  \<^verbatim>\<open>p0\<close>, \<^verbatim>\<open>p1\<close> and texts \<^verbatim>\<open>A\<close>, \<^verbatim>\<open>B\<close> is parsed back by \<open>parseTxtTranslations\<close> into the
  mapping from \<^verbatim>\<open>p0\<close> to \<^verbatim>\<open>A\<close> and from \<^verbatim>\<open>p1\<close> to \<^verbatim>\<open>B\<close>, which is the association of
  identifier and text the segments had before.
\<close>

theorem plain_text_round_trip:
  "parseTxtTranslations
     (simpleFormat
        [\<lparr>seg_id = ''p0'', seg_text = ''A'', seg_translation = t0, seg_source = s0, seg_runCount = n0\<rparr>,
         \<lparr>seg_id = ''p1'', seg_text = ''B'', seg_translation = t1, seg_source = s1, seg_runCount = n1\<rparr>])
   = [(''p0'', ''A''), (''p1'', ''B'')] \<and>
   map (\<lambda>seg. (seg_id seg, seg_text seg))
        [\<lparr>seg_id = ''p0'', seg_text = ''A'', seg_translation = t0, seg_source = s0, seg_runCount = n0\<rparr>,
         \<lparr>seg_id = ''p1'', seg_text = ''B'', seg_translation = t1, seg_source = s1, seg_runCount = n1\<rparr>]
   = [(''p0'', ''A''), (''p1'', ''B'')]"
  by (simp add: parseTxtTranslations_def simpleFormat_def parse_line_def id_line_def
        save_paragraph_def trim_def is_digit_char_def is_space_char_def)

text \<open>
  C9 (counter threading, as amended).  When the starting counter plus the number of
  segments emitted does not pass \<open>2 ^ 53\<close>, the counter \<open>extractParagraphSegments\<close> returns is
  the starting counter plus the number of segments, and the segment at index \<open>i\<close> has the
  identifier \<^verbatim>\<open>p\<close> followed by the decimal numeral of the starting counter plus \<open>i\<close>.
\<close>

theorem counter_threading:
  assumes "number_value startId +
      int (length (segments (extractParagraphSegments xml source startId))) \<le> 2 ^ 53"
  shows "number_value (nextId (extractParagraphSegments xml source startId)) =
       number_value startId + int (length (segments (extractParagraphSegments xml source startId))) \<and>
     (\<forall>i < length (segments (extractParagraphSegments xml source startId)).
        seg_id (segments (extractParagraphSegments xml source startId) ! i) =
          ''p'' @ decimal_int (number_value startId + int i))"
proof (intro conjI allI impI)
  from assms show "number_value (nextId (extractParagraphSegments xml source startId)) =
       number_value startId + int (length (segments (extractParagraphSegments xml source startId)))"
    by (simp add: extractParagraphSegments_blocks number_value_funpow)
next
  fix i assume i: "i < length (segments (extractParagraphSegments xml source startId))"
  with assms have "number_value startId + int i \<le> 2 ^ 53" by simp
  then have "number_value ((number_increment ^^ i) startId) = number_value startId + int i"
    by (rule number_value_funpow)
  with i show "seg_id (segments (extractParagraphSegments xml source startId) ! i) =
          ''p'' @ decimal_int (number_value startId + int i)"
    by (simp add: segments_length segments_nth segment_of_def number_toString_value)
qed

theorem counter_threading_witness:
  "number_value (nextId (extractParagraphSegments ''<w:p><w:t>a</w:t></w:p><w:p><w:t>b</w:t></w:p>'' ''d''
      (Number 9007199254740990))) = 9007199254740992 \<and>
   seg_id (segments (extractParagraphSegments ''<w:p><w:t>a</w:t></w:p><w:p><w:t>b</w:t></w:p>'' ''d''
      (Number 9007199254740990)) ! 0) = ''p9007199254740990'' \<and>
   seg_id (segments (extractParagraphSegments ''<w:p><w:t>a</w:t></w:p><w:p><w:t>b</w:t></w:p>'' ''d''
      (Number 9007199254740990)) ! 1) = ''p9007199254740991''"
proof -
  have 0: "number_value (Number 9007199254740990) = 9007199254740990"
    by (simp add: Number_inverse)
  have 1: "paragraph_blocks ''<w:p><w:t>a</w:t></w:p><w:p><w:t>b</w:t></w:p>'' =
      [(''<w:p><w:t>a</w:t></w:p>'', ''<w:t>a</w:t>''), (''<w:p><w:t>b</w:t></w:p>'', ''<w:t>b</w:t>'')]"
    by code_simp
  have 2: "kept (''<w:p><w:t>a</w:t></w:p>'', ''<w:t>a</w:t>'')" "kept (''<w:p><w:t>b</w:t></w:p>'', ''<w:t>b</w:t>'')"
    by code_simp+
  have 3: "length (segments (extractParagraphSegments ''<w:p><w:t>a</w:t></w:p><w:p><w:t>b</w:t></w:p>'' ''d''
      (Number 9007199254740990))) = 2"
    by (simp add: segments_length 1 2)
  have 4: "decimal_int 9007199254740990 = ''9007199254740990''"
    "decimal_int 9007199254740991 = ''9007199254740991''"
    by (simp_all add: decimal_int_def decimal.simps digit_char_def)
  have 5: "(\<forall>i<2. P i) = (P 0 \<and> P (Suc 0))" for P :: "nat \<Rightarrow> bool"
    by (auto simp: less_Suc_eq numeral_2_eq_2)
  have "number_value (Number 9007199254740990) +
      int (length (segments (extractParagraphSegments ''<w:p><w:t>a</w:t></w:p><w:p><w:t>b</w:t></w:p>'' ''d''
        (Number 9007199254740990)))) \<le> 2 ^ 53"
    by (simp add: 0 3)
  from counter_threading [OF this] show ?thesis
    by (simp add: 0 3 4 5)
qed

text \<open>
  C9 as stated fails: from the starting counter \<open>2 ^ 53\<close> two paragraphs give two segments,
  both with the identifier \<^verbatim>\<open>p9007199254740992\<close>, and the counter returned is \<open>2 ^ 53\<close>, not
  \<open>2 ^ 53 + 2\<close>.
\<close>

theorem counter_threading_counterexample:
  "number_value (nextId (extractParagraphSegments ''<w:p><w:t>a</w:t></w:p><w:p><w:t>b</w:t></w:p>'' ''d''
      (Number 9007199254740992))) = 9007199254740992 \<and>
   length (segments (extractParagraphSegments ''<w:p><w:t>a</w:t></w:p><w:p><w:t>b</w:t></w:p>'' ''d''
      (Number 9007199254740992))) = 2 \<and>
   number_value (nextId (extractParagraphSegments ''<w:p><w:t>a</w:t></w:p><w:p><w:t>b</w:t></w:p>'' ''d''
      (Number 9007199254740992))) \<noteq>
     number_value (Number 9007199254740992) +
     int (length (segments (extractParagraphSegments ''<w:p><w:t>a</w:t></w:p><w:p><w:t>b</w:t></w:p>'' ''d''
      (Number 9007199254740992)))) \<and>
   seg_id (segments (extractParagraphSegments ''<w:p><w:t>a</w:t></w:p><w:p><w:t>b</w:t></w:p>'' ''d''
      (Number 9007199254740992)) ! 1) = ''p9007199254740992'' \<and>
   seg_id (segments (extractParagraphSegments ''<w:p><w:t>a</w:t></w:p><w:p><w:t>b</w:t></w:p>'' ''d''
      (Number 9007199254740992)) ! 1) \<noteq> ''p'' @ decimal_int (number_value (Number 9007199254740992) + int 1)"
proof -
  have 0: "number_value (Number 9007199254740992) = 9007199254740992"
    by (simp add: Number_inverse)
  have 1: "paragraph_blocks ''<w:p><w:t>a</w:t></w:p><w:p><w:t>b</w:t></w:p>'' =
      [(''<w:p><w:t>a</w:t></w:p>'', ''<w:t>a</w:t>''), (''<w:p><w:t>b</w:t></w:p>'', ''<w:t>b</w:t>'')]"
    by code_simp
  have 2: "kept (''<w:p><w:t>a</w:t></w:p>'', ''<w:t>a</w:t>'')" "kept (''<w:p><w:t>b</w:t></w:p>'', ''<w:t>b</w:t>'')"
    by code_simp+
  have 3: "number_increment (Number 9007199254740992) = Number 9007199254740992"
    by (simp add: number_value_inject [symmetric] number_value_increment 0)
  have 4: "decimal_int 9007199254740992 = ''9007199254740992''"
    "decimal_int 9007199254740993 = ''9007199254740993''"
    by (simp_all add: decimal_int_def decimal.simps digit_char_def)
  show ?thesis
    by (simp add: extractParagraphSegments_blocks 1 2 3 0 4 segment_of_def number_toString_value
        enumerate_eq_zip)
qed

text \<open>
  C10 (only flat runs are extracted, as amended).  No segment text and no injector key
  contains \<^verbatim>\<open><\<close>: every text run the run rule finds is a flat element, its inner text free
  of \<^verbatim>\<open><\<close>; the text of a segment and the key of the injector are the inner texts of
  those runs put together, and \<open>runCount\<close> is their number.  An element \<^verbatim>\<open><w:t\<close>,
  attributes, \<^verbatim>\<open>>\<close>, inner content, \<^verbatim>\<open></w:t>\<close> whose inner content contains \<^verbatim>\<open><\<close> is never
  one of the runs, and the run rule does not match at its opening tag.  When, besides, no
  \<^verbatim>\<open><w:t\<close> occurs inside the element, the runs of a paragraph content are the runs of
  what stands before the element and the runs of what stands behind it, so that the
  element adds nothing to the text, to \<open>runCount\<close> or to the key.
\<close>

theorem flat_runs_only:
  "(\<forall>seg \<in> set (segments (extractParagraphSegments xml source startId)).
      CHR ''<'' \<notin> set (seg_text seg)) \<and>
   CHR ''<'' \<notin> set (reconstructed_text paragraphContent) \<and>
   (\<forall>m \<in> set (text_runs paragraphContent).
      CHR ''<'' \<notin> set (snd (snd m)) \<and> fst m = run_element (fst (snd m)) (snd (snd m))) \<and>
   (\<forall>i < length (filter kept (paragraph_blocks xml)).
      seg_text (segments (extractParagraphSegments xml source startId) ! i) =
        concat (map (\<lambda>m. snd (snd m)) (text_runs (snd (filter kept (paragraph_blocks xml) ! i)))) \<and>
      seg_runCount (segments (extractParagraphSegments xml source startId) ! i) =
        length (text_runs (snd (filter kept (paragraph_blocks xml) ! i)))) \<and>
   reconstructed_text paragraphContent =
     concat (map (\<lambda>m. snd (snd m)) (text_runs paragraphContent)) \<and>
   (CHR ''>'' \<notin> set attrs \<and> CHR ''<'' \<in> set inner \<longrightarrow>
      (\<forall>m \<in> set (text_runs paragraphContent).
         fst m \<noteq> ''<w:t'' @ attrs @ ''>'' @ inner @ ''</w:t>'')) \<and>
   (CHR ''>'' \<notin> set attrs \<and> CHR ''<'' \<in> set inner \<and> \<not> sublist ''</w:t>'' inner \<longrightarrow>
      match_text_at (''<w:t'' @ attrs @ ''>'' @ inner @ ''</w:t>'' @ rest) = None) \<and>
   (valid_attrs a \<and> CHR ''<'' \<in> set inner \<and> \<not> sublist ''</w:t>'' inner \<and>
    \<not> sublist ''<w:t'' (or_empty a @ ''>'' @ inner) \<longrightarrow>
      text_runs (pre @ run_element a inner @ post) = text_runs pre @ text_runs post \<and>
      reconstructed_text (pre @ run_element a inner @ post) =
        reconstructed_text pre @ reconstructed_text post \<and>
      (\<forall>i < length (filter kept (paragraph_blocks xml)).
         snd (filter kept (paragraph_blocks xml) ! i) = pre @ run_element a inner @ post \<longrightarrow>
           seg_text (segments (extractParagraphSegments xml source startId) ! i) =
             join [] (extract_texts pre) @ join [] (extract_texts post) \<and>
           seg_runCount (segments (extractParagraphSegments xml source startId) ! i) =
             length (extract_texts pre) + length (extract_texts post)))"
proof (intro conjI ballI impI allI)
  fix seg
  assume "seg \<in> set (segments (extractParagraphSegments xml source startId))"
  then obtain im where "seg = segment_of source im"
    by (auto simp: extractParagraphSegments_blocks)
  then have "seg_text seg = reconstructed_text (snd (snd im))"
    by (simp add: segment_of_def reconstructed_text_def inject_texts_runs extract_texts_runs)
  then show "CHR ''<'' \<notin> set (seg_text seg)"
    by (simp add: reconstructed_text_free)
next
  show "CHR ''<'' \<notin> set (reconstructed_text paragraphContent)"
    by (rule reconstructed_text_free)
next
  fix m
  assume "m \<in> set (text_runs paragraphContent)"
  from text_runs_flat [OF this]
  show "CHR ''<'' \<notin> set (snd (snd m))" "fst m = run_element (fst (snd m)) (snd (snd m))"
    by simp_all
next
  fix i
  assume "i < length (filter kept (paragraph_blocks xml))"
  from segment_runs [OF this]
  show "seg_text (segments (extractParagraphSegments xml source startId) ! i) =
        concat (map (\<lambda>m. snd (snd m)) (text_runs (snd (filter kept (paragraph_blocks xml) ! i))))"
    "seg_runCount (segments (extractParagraphSegments xml source startId) ! i) =
        length (text_runs (snd (filter kept (paragraph_blocks xml) ! i)))"
    by simp_all
next
  show "reconstructed_text paragraphContent =
     concat (map (\<lambda>m. snd (snd m)) (text_runs paragraphContent))"
    by (rule reconstructed_text_runs)
next
  fix m
  assume "CHR ''>'' \<notin> set attrs \<and> CHR ''<'' \<in> set inner" "m \<in> set (text_runs paragraphContent)"
  then show "fst m \<noteq> ''<w:t'' @ attrs @ ''>'' @ inner @ ''</w:t>''"
    by (intro markup_element_not_a_run) simp_all
next
  assume "CHR ''>'' \<notin> set attrs \<and> CHR ''<'' \<in> set inner \<and> \<not> sublist ''</w:t>'' inner"
  then show "match_text_at (''<w:t'' @ attrs @ ''>'' @ inner @ ''</w:t>'' @ rest) = None"
    by (intro markup_run_not_matched) simp_all
next
  assume h: "valid_attrs a \<and> CHR ''<'' \<in> set inner \<and> \<not> sublist ''</w:t>'' inner \<and>
    \<not> sublist ''<w:t'' (or_empty a @ ''>'' @ inner)"
  then show runs: "text_runs (pre @ run_element a inner @ post) = text_runs pre @ text_runs post"
    by (intro text_runs_markup_element) simp_all
  then show "reconstructed_text (pre @ run_element a inner @ post) =
        reconstructed_text pre @ reconstructed_text post"
    by (simp add: reconstructed_text_runs)
  fix i
  assume i: "i < length (filter kept (paragraph_blocks xml))"
    and c: "snd (filter kept (paragraph_blocks xml) ! i) = pre @ run_element a inner @ post"
  from segment_runs [OF i, of source startId] c runs
  show "seg_text (segments (extractParagraphSegments xml source startId) ! i) =
             join [] (extract_texts pre) @ join [] (extract_texts post)"
    "seg_runCount (segments (extractParagraphSegments xml source startId) ! i) =
             length (extract_texts pre) + length (extract_texts post)"
    by (simp_all add: extract_texts_runs join_empty)
qed

theorem flat_runs_only_witness:
  "text_runs ''<w:t>c</w:t><w:t a>x<b/>y</w:t><w:t>d</w:t>'' =
     [(''<w:t>c</w:t>'', None, ''c''), (''<w:t>d</w:t>'', None, ''d'')] \<and>
   reconstructed_text ''<w:t>c</w:t><w:t a>x<b/>y</w:t><w:t>d</w:t>'' = ''cd'' \<and>
   match_text_at ''<w:t a>x<b/>y</w:t><w:t>d</w:t>'' = None \<and>
   seg_text (segments (extractParagraphSegments
      ''<w:p><w:t>c</w:t><w:t a>x<b/>y</w:t><w:t>d</w:t></w:p>'' ''s'' (Number 0)) ! 0) = ''cd'' \<and>
   seg_runCount (segments (extractParagraphSegments
      ''<w:p><w:t>c</w:t><w:t a>x<b/>y</w:t><w:t>d</w:t></w:p>'' ''s'' (Number 0)) ! 0) = 2 \<and>
   CHR ''<'' \<notin> set (seg_text (segments (extractParagraphSegments
      ''<w:p><w:t>c</w:t><w:t a>x<b/>y</w:t><w:t>d</w:t></w:p>'' ''s'' (Number 0)) ! 0))"
proof -
  define xml where "xml = ''<w:p><w:t>c</w:t><w:t a>x<b/>y</w:t><w:t>d</w:t></w:p>''"
  define c where "c = ''<w:t>c</w:t><w:t a>x<b/>y</w:t><w:t>d</w:t>''"
  define segs where "segs = segments (extractParagraphSegments xml ''s'' (Number 0))"
  have 1: "paragraph_blocks xml = [(xml, c)]"
    unfolding xml_def c_def by code_simp
  have 2: "kept (xml, c)"
    unfolding xml_def c_def by code_simp
  have 3: "c = ''<w:t>c</w:t>'' @ run_element (Some '' a'') ''x<b/>y'' @ ''<w:t>d</w:t>''"
    unfolding c_def by code_simp
  have h: "valid_attrs (Some '' a'') \<and> CHR ''<'' \<in> set ''x<b/>y'' \<and> \<not> sublist ''</w:t>'' ''x<b/>y'' \<and>
      \<not> sublist ''<w:t'' (or_empty (Some '' a'') @ ''>'' @ ''x<b/>y'')"
    by code_simp
  have h': "CHR ''>'' \<notin> set '' a'' \<and> CHR ''<'' \<in> set ''x<b/>y'' \<and> \<not> sublist ''</w:t>'' ''x<b/>y''"
    by code_simp
  have 4: "text_runs ''<w:t>c</w:t>'' = [(''<w:t>c</w:t>'', None, ''c'')]"
    "text_runs ''<w:t>d</w:t>'' = [(''<w:t>d</w:t>'', None, ''d'')]"
    "reconstructed_text ''<w:t>c</w:t>'' = ''c''" "reconstructed_text ''<w:t>d</w:t>'' = ''d''"
    "join [] (extract_texts ''<w:t>c</w:t>'') = ''c''" "join [] (extract_texts ''<w:t>d</w:t>'') = ''d''"
    "length (extract_texts ''<w:t>c</w:t>'') = 1" "length (extract_texts ''<w:t>d</w:t>'') = 1"
    by code_simp+
  have 5: "segs \<noteq> []"
    unfolding segs_def using segments_length [of xml "''s''" "Number 0"] 1 2 by auto
  note f = flat_runs_only [of xml "''s''" "Number 0" c "'' a''" "''x<b/>y''" "''<w:t>d</w:t>''"
      "Some '' a''" "''<w:t>c</w:t>''" "''<w:t>d</w:t>''"]
  from f h h' 1 2 3 4 5 show ?thesis
    unfolding segs_def [symmetric] xml_def [symmetric] c_def [symmetric]
    by (auto simp: run_element_def or_empty_def)
qed

text \<open>
  C10 as stated fails: the content of the paragraph below is one text-run element whose
  inner content contains markup, a flat run nested in it.  The run rule matches the nested
  run, and the segment has the text \<^verbatim>\<open>y\<close> and the \<open>runCount\<close> 1.
\<close>

theorem flat_runs_only_counterexample:
  "CHR ''<'' \<in> set ''x<w:t>y</w:t>z'' \<and>
   text_runs (''<w:t>'' @ ''x<w:t>y</w:t>z'' @ ''</w:t>'') = [(''<w:t>y</w:t>'', None, ''y'')] \<and>
   reconstructed_text (''<w:t>'' @ ''x<w:t>y</w:t>z'' @ ''</w:t>'') = ''y'' \<and>
   seg_text (segments (extractParagraphSegments
      (''<w:p>'' @ ''<w:t>'' @ ''x<w:t>y</w:t>z'' @ ''</w:t>'' @ ''</w:p>'') ''s'' (Number 0)) ! 0) = ''y'' \<and>
   seg_runCount (segments (extractParagraphSegments
      (''<w:p>'' @ ''<w:t>'' @ ''x<w:t>y</w:t>z'' @ ''</w:t>'' @ ''</w:p>'') ''s'' (Number 0)) ! 0) = 1"
proof -
  have 1: "paragraph_blocks (''<w:p>'' @ ''<w:t>'' @ ''x<w:t>y</w:t>z'' @ ''</w:t>'' @ ''</w:p>'') =
      [(''<w:p><w:t>x<w:t>y</w:t>z</w:t></w:p>'', ''<w:t>x<w:t>y</w:t>z</w:t>'')]"
    by code_simp
  have 2: "kept (''<w:p><w:t>x<w:t>y</w:t>z</w:t></w:p>'', ''<w:t>x<w:t>y</w:t>z</w:t>'')"
    by code_simp
  have 3: "text_runs ''<w:t>x<w:t>y</w:t>z</w:t>'' = [(''<w:t>y</w:t>'', None, ''y'')]"
    by code_simp
  have 4: "reconstructed_text ''<w:t>x<w:t>y</w:t>z</w:t>'' = ''y''"
    by code_simp
  from 1 2 3 4 show ?thesis
    by (simp add: segment_runs)
qed

end
